theory Spec2Isabelle
  imports Complex_Main "HOL-Library.Word"
begin

unbundle bit_operations_syntax

section \<open>Data model of \<open>HtmPixelization.cc\<close>\<close>

text \<open>
  An HTM index is a \<open>uint64_t\<close>; \<open>int\<close> variables (levels, bit positions) stay far
  below any overflow (they range over \<open>-1 .. 63\<close>), so they are HOL integers with the
  bitwise operators of the source (\<open>&\<close> is \<open>AND\<close>, \<open>>>\<close> is \<open>drop_bit\<close>, \<open><<\<close> is
  \<open>push_bit\<close>).
\<close>

type_synonym uint64 = "64 word"

text \<open>
  \<open>std::invalid_argument\<close> with its message; the only exception thrown in the file.
\<close>

datatype error = invalid_argument string

text \<open>
  A \<open>UnitVector3d\<close> holds three \<open>double\<close> coordinates. The file itself only compares
  coordinates with \<open>0.0\<close> and copies them; a finite double is a real number and these
  comparisons agree with the order of the reals (\<open>-0.0\<close> is \<open>0\<close>), so coordinates are
  reals here. All rounding arithmetic of the file happens in two operations of the
  library that are declared elsewhere: the normalising constructor applied to a sum,
  \<open>UnitVector3d(a + b)\<close>, and \<open>orientation(a, b, c)\<close>. Every function below that uses
  them takes them as arguments (\<open>mid\<close> and \<open>orientation\<close>), so nothing is assumed about
  how they round. A NaN coordinate, which no unit vector has, is outside the model.

  The constant \<open>MAX_LEVEL\<close> is declared in \<open>HtmPixelization.h\<close>, which is not among
  the sources: the functions that read it take it as their first argument.
\<close>

datatype UnitVector3d = fromNormalized (vx: real) (vy: real) (vz: real)

type_synonym trixel = "UnitVector3d \<times> UnitVector3d \<times> UnitVector3d"

type_synonym midpoint = "UnitVector3d \<Rightarrow> UnitVector3d \<Rightarrow> UnitVector3d"

type_synonym orient = "UnitVector3d \<Rightarrow> UnitVector3d \<Rightarrow> UnitVector3d \<Rightarrow> int"

text \<open>The class has the single data member \<open>_level\<close>.\<close>

datatype HtmPixelization = HtmPixelization_obj (level_of: int)

section \<open>The root table\<close>

definition HTM_ROOT_VERTEX :: "real list list list" where
  "HTM_ROOT_VERTEX =
    [[[ 1,  0, 0], [0, 0, -1], [ 0,  1, 0]],
     [[ 0,  1, 0], [0, 0, -1], [-1,  0, 0]],
     [[-1,  0, 0], [0, 0, -1], [ 0, -1, 0]],
     [[ 0, -1, 0], [0, 0, -1], [ 1,  0, 0]],
     [[ 1,  0, 0], [0, 0,  1], [ 0, -1, 0]],
     [[ 0, -1, 0], [0, 0,  1], [-1,  0, 0]],
     [[-1,  0, 0], [0, 0,  1], [ 0,  1, 0]],
     [[ 0,  1, 0], [0, 0,  1], [ 1,  0, 0]]]"

text \<open>
  \<open>UnitVector3d::fromNormalized(HTM_ROOT_VERTEX[r][k][0], HTM_ROOT_VERTEX[r][k][1],
  HTM_ROOT_VERTEX[r][k][2])\<close>, the expression that \<open>operator()\<close>, \<open>triangle\<close> and
  \<open>index\<close> all use to load a root vertex.
\<close>

definition root_vertex :: "nat \<Rightarrow> nat \<Rightarrow> UnitVector3d" where
  "root_vertex r k =
     fromNormalized (HTM_ROOT_VERTEX ! r ! k ! 0)
                    (HTM_ROOT_VERTEX ! r ! k ! 1)
                    (HTM_ROOT_VERTEX ! r ! k ! 2)"

definition root_trixel :: "nat \<Rightarrow> trixel" where
  "root_trixel r = (root_vertex r 0, root_vertex r 1, root_vertex r 2)"

section \<open>\<open>HtmPixelFinder::subdivide\<close>\<close>

text \<open>
  \<open>subdivide\<close> hands four children to \<open>visit\<close> of the base class, in this order. The
  model returns the argument lists of the four calls.
\<close>

definition subdivide ::
  "midpoint \<Rightarrow> trixel \<Rightarrow> uint64 \<Rightarrow> int \<Rightarrow> (trixel \<times> uint64 \<times> int) list" where
  "subdivide mid trixel index level =
     (case trixel of (t0, t1, t2) \<Rightarrow>
        let mid0 = mid t1 t2;
            mid1 = mid t2 t0;
            mid2 = mid t0 t1;
            index1 = index * 4;
            level1 = level + 1;
            index2 = index1 + 1;
            index3 = index2 + 1;
            index4 = index3 + 1
        in [((t0, mid2, mid1), index1, level1),
            ((t1, mid0, mid2), index2, level1),
            ((t2, mid1, mid0), index3, level1),
            ((mid0, mid1, mid2), index4, level1)])"

section \<open>\<open>HtmPixelization::level\<close>\<close>

text \<open>
  Modelled from the spec: \<open>log2\<close> of \<open>curve.h\<close>, which is not among the sources. The
  spec describes it as the bit position of the most significant set bit; for \<open>0\<close>,
  which has no set bit, the model returns \<open>0\<close>, an even position, as the spec's
  scenario "\<open>resolve(0)\<close> signals an invalid-parameter error" needs.
\<close>

fun msb_index :: "nat \<Rightarrow> nat" where
  "msb_index n = (if n \<le> 1 then 0 else Suc (msb_index (n div 2)))"

declare msb_index.simps [simp del]

definition log2 :: "uint64 \<Rightarrow> int" where
  "log2 x = int (msb_index (unat x))"

definition level :: "uint64 \<Rightarrow> int" where
  "level i =
     (let j = log2 i
      in if j AND 1 = 0 \<or> j = 1 then - 1 else drop_bit 1 (j - 3))"

section \<open>\<open>HtmPixelization::triangle\<close>\<close>

text \<open>The body of the \<open>for\<close> loop: the \<open>switch\<close> on the child number at bit \<open>l\<close>.\<close>

definition triangle_step :: "midpoint \<Rightarrow> int \<Rightarrow> trixel \<Rightarrow> trixel" where
  "triangle_step mid child t =
     (case t of (v0, v1, v2) \<Rightarrow>
        let m12 = mid v1 v2;
            m20 = mid v2 v0;
            m01 = mid v0 v1
        in if child = 0 then (v0, m01, m20)
           else if child = 1 then (v1, m12, m01)
           else if child = 2 then (v2, m20, m12)
           else if child = 3 then (m12, m20, m01)
           else (v0, v1, v2))"

function triangle_loop :: "midpoint \<Rightarrow> uint64 \<Rightarrow> int \<Rightarrow> trixel \<Rightarrow> trixel" where
  "triangle_loop mid i l t =
     (if l \<ge> 0
      then triangle_loop mid i (l - 2)
             (triangle_step mid (uint (drop_bit (nat l) i AND 3)) t)
      else t)"
  by pat_completeness auto
termination
  by (relation "measure (\<lambda>(mid, i, l, t). nat (l + 1))") auto

declare triangle_loop.simps [simp del]

definition triangle :: "int \<Rightarrow> midpoint \<Rightarrow> uint64 \<Rightarrow> error + trixel" where
  "triangle MAX_LEVEL mid i =
     (let l = level i
      in if l < 0 \<or> l > MAX_LEVEL then Inl (invalid_argument ''Invalid HTM index'')
         else let l2 = l * 2;
                  r = drop_bit (nat l2) i AND 7
              in Inr (triangle_loop mid i (l2 - 2) (root_trixel (unat r))))"

section \<open>\<open>HtmPixelization::toString\<close>\<close>

text \<open>
  The buffer \<open>char s[MAX_LEVEL + 2]\<close> is a list of that length and the pointer \<open>p\<close> an
  offset into it. The loop writes one base-4 digit per round, from the end of the
  buffer towards its start. The buffer is not initialised in the source; the model
  fills it with zero bytes, and every byte of the returned string is written before
  it is read.
\<close>

function toString_loop :: "int \<Rightarrow> nat \<Rightarrow> uint64 \<Rightarrow> string \<Rightarrow> nat \<times> uint64 \<times> string" where
  "toString_loop l p i s =
     (if l \<ge> 0
      then toString_loop (l - 1) (p - 1) (drop_bit 2 i)
             (s[p := char_of (unat (of_nat (of_char CHR ''0'') + (i AND 3)))])
      else (p, i, s))"
  by pat_completeness auto
termination
  by (relation "measure (\<lambda>(l, p, i, s). nat (l + 1))") auto

declare toString_loop.simps [simp del]

definition toString :: "int \<Rightarrow> uint64 \<Rightarrow> error + string" where
  "toString MAX_LEVEL i =
     (let s = replicate (nat (MAX_LEVEL + 2)) (CHR 0x00);
          l = level i
      in if l < 0 \<or> l > MAX_LEVEL then Inl (invalid_argument ''Invalid HTM index'')
         else case toString_loop l (length s - 1) i s of
                (p, i', s') \<Rightarrow>
                  let s'' = s'[p := (if i' AND 1 = 0 then CHR ''S'' else CHR ''N'')]
                  in Inr (take (length s - p) (drop p s'')))"

section \<open>The constructor and \<open>HtmPixelization::index\<close>\<close>

definition HtmPixelization :: "int \<Rightarrow> int \<Rightarrow> error + HtmPixelization" where
  "HtmPixelization MAX_LEVEL lev =
     (if lev < 0 \<or> lev > MAX_LEVEL
      then Inl (invalid_argument ''Invalid HTM subdivision level'')
      else Inr (HtmPixelization_obj lev))"

text \<open>The root triangle number \<open>r\<close> chosen at the start of \<open>index\<close>.\<close>

definition index_root :: "UnitVector3d \<Rightarrow> uint64" where
  "index_root v =
     (if vz v < 0 then
        (if vy v > 0 then (if vx v > 0 then 0 else 1)
         else if vy v = 0 then (if vx v \<ge> 0 then 0 else 2)
         else (if vx v < 0 then 2 else 3))
      else
        (if vy v > 0 then (if vx v > 0 then 7 else 6)
         else if vy v = 0 then (if vx v \<ge> 0 then 7 else 5)
         else (if vx v < 0 then 5 else 4)))"

text \<open>One round of the descent: the loop state is the current triangle and \<open>i\<close>.\<close>

definition index_step ::
  "orient \<Rightarrow> midpoint \<Rightarrow> UnitVector3d \<Rightarrow> trixel \<times> uint64 \<Rightarrow> trixel \<times> uint64" where
  "index_step orientation mid v st =
     (case st of ((v0, v1, v2), i) \<Rightarrow>
        let m01 = mid v0 v1;
            m20 = mid v2 v0;
            i1 = push_bit 2 i
        in if orientation v m01 m20 \<ge> 0 then ((v0, m01, m20), i1)
           else let m12 = mid v1 v2
                in if orientation v m12 m01 \<ge> 0 then ((v1, m12, m01), i1 + 1)
                   else if orientation v m20 m12 \<ge> 0 then ((v2, m20, m12), i1 + 2)
                   else ((m12, m20, m01), i1 + 3))"

function index_loop ::
  "orient \<Rightarrow> midpoint \<Rightarrow> UnitVector3d \<Rightarrow> int \<Rightarrow> int \<Rightarrow> trixel \<times> uint64 \<Rightarrow> trixel \<times> uint64" where
  "index_loop orientation mid v lev l st =
     (if l < lev
      then index_loop orientation mid v lev (l + 1) (index_step orientation mid v st)
      else st)"
  by pat_completeness auto
termination
  by (relation "measure (\<lambda>(orientation, mid, v, lev, l, st). nat (lev - l))") auto

declare index_loop.simps [simp del]

definition index :: "orient \<Rightarrow> midpoint \<Rightarrow> HtmPixelization \<Rightarrow> UnitVector3d \<Rightarrow> uint64" where
  "index orientation mid this v =
     (let r = index_root v
      in snd (index_loop orientation mid v (level_of this) 0
                (root_trixel (unat r), r + 8)))"

section \<open>Notions of the specification\<close>

text \<open>
  The child layout as the specification words it (section 4.2): with
  \<open>m01 = normalize(v0+v1)\<close>, \<open>m12 = normalize(v1+v2)\<close>, \<open>m20 = normalize(v2+v0)\<close>,
  child 0 is \<open>(v0, m01, m20)\<close>, child 1 is \<open>(v1, m12, m01)\<close>, child 2 is
  \<open>(v2, m20, m12)\<close> and child 3 is \<open>(m12, m20, m01)\<close>. The three functions of the
  source are compared with this table.
\<close>

definition spec_child_layout :: "midpoint \<Rightarrow> trixel \<Rightarrow> nat \<Rightarrow> trixel" where
  "spec_child_layout mid t k =
     (case t of (v0, v1, v2) \<Rightarrow>
        let m01 = mid v0 v1;
            m12 = mid v1 v2;
            m20 = mid v2 v0
        in if k = 0 then (v0, m01, m20)
           else if k = 1 then (v1, m12, m01)
           else if k = 2 then (v2, m20, m12)
           else (m12, m20, m01))"

text \<open>
  The nodes \<open>n\<close> levels below a node: \<open>subdivide\<close> applied to the node, then to each
  child it hands on, \<open>n\<close> times, in the order of the calls. (Whether the traversal
  really descends into a child is decided by \<open>visit\<close> of \<open>PixelFinder.h\<close>; the
  descendants of a node are what it reaches when nothing is pruned.)
\<close>

fun descend :: "midpoint \<Rightarrow> nat \<Rightarrow> trixel \<times> uint64 \<times> int \<Rightarrow> (trixel \<times> uint64 \<times> int) list" where
  "descend mid 0 node = [node]"
| "descend mid (Suc n) node =
     (case node of (t, i, l) \<Rightarrow> concat (map (descend mid n) (subdivide mid t i l)))"

definition descendant_ids :: "midpoint \<Rightarrow> nat \<Rightarrow> trixel \<Rightarrow> uint64 \<Rightarrow> int \<Rightarrow> uint64 list" where
  "descendant_ids mid n t i l = map (\<lambda>node. fst (snd node)) (descend mid n (t, i, l))"

definition child_ids :: "midpoint \<Rightarrow> trixel \<Rightarrow> uint64 \<Rightarrow> int \<Rightarrow> uint64 list" where
  "child_ids mid t i l = map (\<lambda>node. fst (snd node)) (subdivide mid t i l)"

text \<open>
  The range of the specification, \<open>[i << 2n, (i + 1) << 2n)\<close> with \<open>n = L - l\<close>, in
  64-bit arithmetic.
\<close>

definition id_range :: "uint64 \<Rightarrow> nat \<Rightarrow> uint64 set" where
  "id_range i n = {push_bit (2 * n) i ..< push_bit (2 * n) (i + 1)}"

text \<open>
  The 3-bit root field of an index, as \<open>triangle\<close> extracts it: \<open>(i >> 2 * level) & 7\<close>.
\<close>

definition root_field :: "uint64 \<Rightarrow> uint64" where
  "root_field i = drop_bit (nat (level i * 2)) i AND 7"

text \<open>
  The character \<open>'0' + (i & 3)\<close>, and the \<open>n\<close> lowest base-4 digits of \<open>i\<close> as a
  string, most significant digit first.
\<close>

definition digit_char :: "uint64 \<Rightarrow> char" where
  "digit_char i = char_of (unat (of_nat (of_char CHR ''0'') + (i AND 3)))"

fun base4_digits :: "nat \<Rightarrow> uint64 \<Rightarrow> string" where
  "base4_digits 0 i = []"
| "base4_digits (Suc n) i = base4_digits n (drop_bit 2 i) @ [digit_char i]"

text \<open>The hemisphere character \<open>(i & 1) == 0 ? 'S' : 'N'\<close> that ends \<open>toString\<close>.\<close>

definition hemisphere_char :: "uint64 \<Rightarrow> char" where
  "hemisphere_char i' = (if i' AND 1 = 0 then CHR ''S'' else CHR ''N'')"

section \<open>The level of an index\<close>

lemma msb_index_bounds:
  "0 < n \<Longrightarrow> 2 ^ msb_index n \<le> n \<and> n < 2 ^ Suc (msb_index n)"
proof (induction n rule: msb_index.induct)
  case (1 n)
  show ?case
  proof (cases "n \<le> 1")
    case True
    with "1.prems" have "n = 1" by simp
    then show ?thesis by (simp add: msb_index.simps)
  next
    case False
    then have pos: "0 < n div 2" by simp
    from "1.IH" [OF False pos]
    have lo: "2 ^ msb_index (n div 2) \<le> n div 2"
      and hi: "n div 2 < 2 ^ Suc (msb_index (n div 2))" by simp_all
    have eq: "msb_index n = Suc (msb_index (n div 2))"
      using False by (subst msb_index.simps) simp
    from lo have "2 * 2 ^ msb_index (n div 2) \<le> n" by linarith
    moreover from hi have "n < 2 * 2 ^ Suc (msb_index (n div 2))" by linarith
    ultimately show ?thesis by (simp add: eq)
  qed
qed

lemma msb_index_unique:
  assumes "2 ^ j \<le> n" and "n < 2 ^ Suc j"
  shows "msb_index n = j"
proof -
  from assms(1) have pos: "0 < n"
    by (metis less_le_trans zero_less_numeral zero_less_power)
  from msb_index_bounds [OF pos]
  have lo: "2 ^ msb_index n \<le> n" and hi: "n < 2 ^ Suc (msb_index n)" by simp_all
  have "(2::nat) ^ j < 2 ^ Suc (msb_index n)" using assms(1) hi by linarith
  then have a: "j < Suc (msb_index n)" by (simp only: power_strict_increasing_iff) 
  have "(2::nat) ^ msb_index n < 2 ^ Suc j" using assms(2) lo by linarith
  then have b: "msb_index n < Suc j" by (simp only: power_strict_increasing_iff)
  from a b show ?thesis by simp
qed

lemma msb_index_zero: "msb_index 0 = 0"
  by (simp add: msb_index.simps)

lemma level_alt:
  "level i = (let j = msb_index (unat i)
              in if even j \<or> j = 1 then - 1 else (int j - 3) div 2)"
proof -
  have "(int n AND 1 = 0) = even n" for n
    by (simp add: and_one_eq) presburger
  then show ?thesis
    by (simp add: level_def log2_def Let_def drop_bit_eq_div)
qed

lemma msb_index_word_less: "msb_index (unat (i::uint64)) < 64"
proof (cases "i = 0")
  case True
  then show ?thesis by (simp add: msb_index_zero)
next
  case False
  then have "0 < unat i" by (simp add: unat_gt_0)
  from msb_index_bounds [OF this] have "2 ^ msb_index (unat i) \<le> unat i" by simp
  moreover have "unat i < 2 ^ 64" using unsigned_less [of i] by simp
  ultimately have "(2::nat) ^ msb_index (unat i) < 2 ^ 64" by linarith
  then show ?thesis by (simp only: power_strict_increasing_iff) 
qed

lemma pow8: "(8::nat) * 4 ^ l = 2 ^ (2 * l + 3)"
  by (simp add: power_add power_mult)

lemma pow16: "(16::nat) * 4 ^ l = 2 ^ Suc (2 * l + 3)"
  by (simp add: power_add power_mult)

lemma level_of_bounds:
  assumes "8 * 4 ^ l \<le> unat i" and "unat i < 16 * 4 ^ l"
  shows "level i = int l"
proof -
  have "msb_index (unat i) = 2 * l + 3"
    using assms by (intro msb_index_unique) (simp_all only: pow8 pow16)
  then show ?thesis by (simp add: level_alt)
qed

lemma level_nonneg_bounds:
  assumes "level i = int l"
  shows "8 * 4 ^ l \<le> unat i \<and> unat i < 16 * 4 ^ l"
proof -
  let ?j = "msb_index (unat i)"
  from assms have odd: "odd ?j" and ne: "?j \<noteq> 1" and eq: "(int ?j - 3) div 2 = int l"
    by (auto simp: level_alt Let_def split: if_splits)
  from odd ne eq have j: "?j = 2 * l + 3" by presburger
  have "unat i \<noteq> 0"
  proof
    assume "unat i = 0"
    then have "?j = 0" by (simp add: msb_index_zero)
    with odd show False by simp
  qed
  then have "0 < unat i" by simp
  from msb_index_bounds [OF this] show ?thesis
    by (simp only: j pow8 pow16)
qed

lemma level_valid_iff:
  "level i = int l \<longleftrightarrow> 8 * 4 ^ l \<le> unat i \<and> unat i < 16 * 4 ^ l"
  using level_of_bounds level_nonneg_bounds by blast

lemma level_range: "- 1 \<le> level i \<and> level i \<le> 30"
proof -
  have "msb_index (unat i) < 64" by (rule msb_index_word_less)
  moreover have "- 1 \<le> (int n - 3) div 2 \<and> (int n - 3) div 2 \<le> 30" if "n < 64" "odd n" for n :: nat
    using that by presburger
  ultimately show ?thesis by (simp add: level_alt Let_def)
qed

lemma msb_position_bounds:
  fixes i :: uint64
  assumes "bit i j" and "\<forall>k. j < k \<longrightarrow> \<not> bit i k"
  shows "2 ^ j \<le> unat i \<and> unat i < 2 ^ Suc j"
proof
  from assms(1) have "bit (unat i) j" by (simp add: bit_unsigned_iff)
  then show "2 ^ j \<le> unat i"
    by (simp add: bit_iff_odd) (metis div_less even_zero not_le)
  have "take_bit (Suc j) i = i"
    by (rule bit_eqI) (use assms(2) in \<open>auto simp: bit_take_bit_iff not_less_eq\<close>)
  then have "unat i = take_bit (Suc j) (unat i)"
    by (metis unsigned_take_bit_eq)
  then show "unat i < 2 ^ Suc j"
    by (metis take_bit_nat_less_exp)
qed

lemma bounds_msb_position:
  fixes i :: uint64
  assumes "2 ^ j \<le> unat i" and "unat i < 2 ^ Suc j"
  shows "bit i j \<and> (\<forall>k. j < k \<longrightarrow> \<not> bit i k)"
proof
  have "unat i div 2 ^ j = 1"
    using assms by (simp add: div_nat_eqI) 
  then have "bit (unat i) j" by (simp add: bit_iff_odd)
  then show "bit i j" by (simp add: bit_unsigned_iff)
  show "\<forall>k. j < k \<longrightarrow> \<not> bit i k"
  proof (intro allI impI notI)
    fix k assume "j < k" and "bit i k"
    then have "bit (unat i) k" by (simp add: bit_unsigned_iff)
    then have "2 ^ k \<le> unat i"
      by (simp add: bit_iff_odd) (metis div_less even_zero not_le)
    moreover have "(2::nat) ^ Suc j \<le> 2 ^ k" using \<open>j < k\<close> by (intro power_increasing) simp_all
    ultimately show False using assms(2) by linarith
  qed
qed

text \<open>
  Claim C4. \<open>level\<close> is computed from the position \<open>j\<close> of the most significant set
  bit alone: when \<open>j\<close> is odd and greater than 1 the result is \<open>(j - 3) / 2\<close>, and in every
  other case (\<open>j\<close> even, \<open>j = 1\<close>, or no bit set at all) it is the sentinel \<open>-1\<close>.
\<close>

theorem level_msb:
  fixes i :: uint64
  shows "(i = 0 \<longrightarrow> level i = - 1) \<and>
    (\<forall>j. bit i j \<and> (\<forall>k. j < k \<longrightarrow> \<not> bit i k) \<longrightarrow>
       level i = (if odd j \<and> 1 < j then (int j - 3) div 2 else - 1))"
proof (intro conjI allI impI)
  assume "i = 0"
  then show "level i = - 1" by (simp add: level_alt msb_index_zero)
next
  fix j
  assume "bit i j \<and> (\<forall>k. j < k \<longrightarrow> \<not> bit i k)"
  then have "2 ^ j \<le> unat i \<and> unat i < 2 ^ Suc j" by (intro msb_position_bounds) simp_all
  then have "msb_index (unat i) = j" by (intro msb_index_unique) simp_all
  moreover have "odd j \<Longrightarrow> j \<noteq> 1 \<Longrightarrow> 1 < j" by presburger
  ultimately show "level i = (if odd j \<and> 1 < j then (int j - 3) div 2 else - 1)"
    by (auto simp: level_alt Let_def)
qed

theorem level_msb_witness:
  "bit (13 :: uint64) 3 \<and> (\<forall>k. \<not> (3 < k \<and> bit (13 :: uint64) k)) \<and> level 13 = 0
   \<and> bit (4 :: uint64) 2 \<and> (\<forall>k. \<not> (2 < k \<and> bit (4 :: uint64) k)) \<and> level 4 = - 1"
proof -
  have a: "bit (13 :: uint64) 3 \<and> (\<forall>k. 3 < k \<longrightarrow> \<not> bit (13 :: uint64) k)"
    by (rule bounds_msb_position) simp_all
  have b: "bit (4 :: uint64) 2 \<and> (\<forall>k. 2 < k \<longrightarrow> \<not> bit (4 :: uint64) k)"
    by (rule bounds_msb_position) simp_all
  from a level_msb [of 13]
  have "level 13 = (if odd (3::nat) \<and> 1 < (3::nat) then (int 3 - 3) div 2 else - 1)"
    by blast
  moreover from b level_msb [of 4]
  have "level 4 = (if odd (2::nat) \<and> 1 < (2::nat) then (int 2 - 3) div 2 else - 1)"
    by blast
  ultimately show ?thesis using a b by simp
qed

section \<open>The index of a point has the configured level\<close>

lemma index_root_cases: "index_root v \<in> {0, 1, 2, 3, 4, 5, 6, 7}"
  by (simp add: index_root_def)

lemma index_root_unat: "unat (index_root v) < 8"
  using index_root_cases [of v] by auto

lemma index_root_plus8: "8 \<le> unat (index_root v + 8) \<and> unat (index_root v + 8) < 16"
  using index_root_cases [of v] by auto

lemma index_step_snd:
  "snd (index_step orientation mid v (t, i)) \<in> {4 * i, 4 * i + 1, 4 * i + 2, 4 * i + 3}"
  by (cases t) (simp add: index_step_def Let_def push_bit_eq_mult mult.commute)

lemma unat_child:
  fixes i :: uint64
  assumes "4 * unat i + k < 2 ^ 64" and "k < 4"
  shows "unat (4 * i + of_nat k) = 4 * unat i + k"
proof -
  have "unat (4 * i + of_nat k) = (4 * unat i + k) mod 2 ^ 64"
    using assms(2) by (simp add: unat_word_ariths unat_of_nat mod_simps)
  with assms(1) show ?thesis by simp
qed

lemma step_bounds:
  fixes i :: uint64
  assumes lo: "8 * 4 ^ l \<le> unat i" and hi: "unat i < 16 * 4 ^ l" and l: "l < 30"
    and j: "j \<in> {4 * i, 4 * i + 1, 4 * i + 2, 4 * i + 3}"
  shows "8 * 4 ^ Suc l \<le> unat j \<and> unat j < 16 * 4 ^ Suc l"
proof -
  have "(4::nat) ^ l \<le> 4 ^ 29" using l by (intro power_increasing) simp_all
  with hi have small: "4 * unat i + 3 < 2 ^ 64" by simp
  have c: "unat (4 * i + of_nat k) = 4 * unat i + k" if "k < 4" for k
    using small that by (intro unat_child) simp_all
  from c [of 0] c [of 1] c [of 2] c [of 3]
  have "unat (4 * i) = 4 * unat i" "unat (4 * i + 1) = 4 * unat i + 1"
    "unat (4 * i + 2) = 4 * unat i + 2" "unat (4 * i + 3) = 4 * unat i + 3"
    by simp_all
  with j lo hi show ?thesis by auto
qed

lemma index_loop_level:
  assumes "0 \<le> l" and "l \<le> lev" and "lev \<le> 30"
    and "8 * 4 ^ nat l \<le> unat (snd st)" and "unat (snd st) < 16 * 4 ^ nat l"
  shows "level (snd (index_loop orientation mid v lev l st)) = lev"
  using assms
proof (induction orientation mid v lev l st rule: index_loop.induct)
  case (1 orientation mid v lev l st)
  show ?case
  proof (cases "l < lev")
    case True
    obtain t i where st: "st = (t, i)" by (cases st)
    let ?st' = "index_step orientation mid v st"
    have mem: "snd ?st' \<in> {4 * i, 4 * i + 1, 4 * i + 2, 4 * i + 3}"
      unfolding st by (rule index_step_snd)
    have l30: "nat l < 30" using True "1.prems" by simp
    have "8 * 4 ^ Suc (nat l) \<le> unat (snd ?st') \<and> unat (snd ?st') < 16 * 4 ^ Suc (nat l)"
      using "1.prems"(4,5) l30 mem unfolding st by (intro step_bounds) simp_all
    moreover have "Suc (nat l) = nat (l + 1)" using "1.prems"(1) by simp
    ultimately have b: "8 * 4 ^ nat (l + 1) \<le> unat (snd ?st')"
      "unat (snd ?st') < 16 * 4 ^ nat (l + 1)" by simp_all
    have "level (snd (index_loop orientation mid v lev (l + 1) ?st')) = lev"
      using True "1.prems"(1,3) b by (intro "1.IH") simp_all
    then show ?thesis using True by (subst index_loop.simps) simp
  next
    case False
    with "1.prems" have eq: "l = lev" by simp
    have "level (snd st) = int (nat l)"
      using "1.prems"(4,5) by (rule level_of_bounds)
    then show ?thesis using False eq "1.prems"(1) by (subst index_loop.simps) simp
  qed
qed

text \<open>
  Claim C8. For a pixelization constructed at level \<open>L\<close> (so \<open>0 \<le> L \<le> MAX_LEVEL\<close>),
  \<open>index\<close> returns, for every point and whatever \<open>orientation\<close> and the normalised
  sums compute, an index \<open>i\<close> with \<open>level i = L\<close>, that is
  \<open>8 * 4^L \<le> i < 16 * 4^L\<close>. \<open>MAX_LEVEL\<close> is declared in the header; the 64 bits of
  an index hold levels up to 30, which is what the proof needs of it.
\<close>

theorem index_level:
  assumes "HtmPixelization MAX_LEVEL L = Inr pix" and "MAX_LEVEL \<le> 30"
  shows "level (index orientation mid pix v) = L
         \<and> 8 * 4 ^ nat L \<le> unat (index orientation mid pix v)
         \<and> unat (index orientation mid pix v) < 16 * 4 ^ nat L"
proof -
  from assms(1) have L: "0 \<le> L" "L \<le> MAX_LEVEL" and pix: "level_of pix = L"
    by (auto simp: HtmPixelization_def split: if_splits)
  have lev: "level (index orientation mid pix v) = L"
    unfolding index_def Let_def pix
    using L assms(2) index_root_plus8 [of v] by (intro index_loop_level) simp_all
  then have "level (index orientation mid pix v) = int (nat L)" using L by simp
  from level_nonneg_bounds [OF this] lev show ?thesis by simp
qed

theorem index_level_witness:
  "HtmPixelization 24 2 = Inr (HtmPixelization_obj 2) \<and> (24::int) \<le> 30
   \<and> level (index (\<lambda>a b c. - 1) (\<lambda>a b. a) (HtmPixelization_obj 2) (fromNormalized 0 0 1)) = 2"
  using index_level [of 24 2 "HtmPixelization_obj 2" "\<lambda>a b c. - 1" "\<lambda>a b. a" "fromNormalized 0 0 1"]
  by (simp add: HtmPixelization_def)

section \<open>Root selection\<close>

text \<open>
  Claim C10. A point on the z-axis (first and second coordinate exactly zero) gets root
  triangle 0 when its third coordinate is negative and root triangle 7 otherwise, so the
  descent of \<open>index\<close> starts from the triangle of root 0 with index 8, or from the
  triangle of root 7 with index 15.
\<close>

theorem index_root_z_axis:
  assumes "vx v = 0" and "vy v = 0"
  shows "index_root v = (if vz v < 0 then 0 else 7)
    \<and> index orientation mid pix v =
        snd (index_loop orientation mid v (level_of pix) 0
               (if vz v < 0 then (root_trixel 0, 8) else (root_trixel 7, 15)))"
  using assms by (simp add: index_def index_root_def)

theorem index_root_z_axis_witness:
  "vx (fromNormalized 0 0 (- 1)) = 0 \<and> vy (fromNormalized 0 0 (- 1)) = 0
   \<and> index_root (fromNormalized 0 0 (- 1)) = 0
   \<and> vx (fromNormalized 0 0 1) = 0 \<and> vy (fromNormalized 0 0 1) = 0
   \<and> index_root (fromNormalized 0 0 1) = 7"
  using index_root_z_axis [of "fromNormalized 0 0 (- 1)" "\<lambda>a b c. 0" "\<lambda>a b. a" "HtmPixelization_obj 0"]
    index_root_z_axis [of "fromNormalized 0 0 1" "\<lambda>a b c. 0" "\<lambda>a b. a" "HtmPixelization_obj 0"]
  by simp

text \<open>
  Claim C2, as stated: at a second coordinate of exactly zero the root is the one of the
  side with positive second coordinate, for both signs of the first coordinate. The code
  does this for a positive first coordinate only. With a negative first coordinate the
  branch \<open>r = (v.x() >= 0.0) ? 0 : 2\<close> (\<open>7 : 5\<close> in the north) picks the root of the
  side with negative second coordinate: the point \<open>(-3/5, 0, -4/5)\<close> gets root 2,
  while \<open>(-3/5, y, -4/5)\<close> gets root 1 for positive \<open>y\<close>; in the north \<open>(-1, 0, 0)\<close>
  gets root 5 and \<open>(-1, y, 0)\<close> root 6.
\<close>

theorem index_root_tie_counterexample:
  "index_root (fromNormalized (- 3 / 5) 0 (- 4 / 5)) = 2
   \<and> index_root (fromNormalized (- 3 / 5) (1 / 1000000) (- 4 / 5)) = 1
   \<and> index_root (fromNormalized (- 1) 0 0) = 5
   \<and> index_root (fromNormalized (- 1) (1 / 1000000) 0) = 6"
  by (simp add: index_root_def)

text \<open>
  Claim C2, amended. At a second coordinate of exactly zero: with a positive first
  coordinate the root is the one assigned for every positive second coordinate (same
  first and third coordinate), root 0 in the south and 7 in the north; with a negative
  first coordinate it is the one assigned for every negative second coordinate, root 2
  in the south and 5 in the north; with a first coordinate of zero it is root 0 in the
  south and 7 in the north.
\<close>

theorem index_root_tie:
  assumes "vy v = 0"
  shows "(0 < vx v \<longrightarrow>
            index_root v = (if vz v < 0 then 0 else 7) \<and>
            (\<forall>y'. 0 < y' \<longrightarrow> index_root (fromNormalized (vx v) y' (vz v)) = index_root v))
       \<and> (vx v < 0 \<longrightarrow>
            index_root v = (if vz v < 0 then 2 else 5) \<and>
            (\<forall>y'. y' < 0 \<longrightarrow> index_root (fromNormalized (vx v) y' (vz v)) = index_root v))
       \<and> (vx v = 0 \<longrightarrow> index_root v = (if vz v < 0 then 0 else 7))"
  using assms by (simp add: index_root_def)

theorem index_root_tie_witness:
  "vy (fromNormalized (3 / 5) 0 (- 4 / 5)) = 0 \<and> (0::real) < 3 / 5
   \<and> index_root (fromNormalized (3 / 5) 0 (- 4 / 5)) = 0
   \<and> index_root (fromNormalized (3 / 5) (1 / 2) (- 4 / 5)) = 0
   \<and> vy (fromNormalized (- 3 / 5) 0 (- 4 / 5)) = 0 \<and> (- 3 / 5 :: real) < 0
   \<and> index_root (fromNormalized (- 3 / 5) 0 (- 4 / 5)) = 2
   \<and> index_root (fromNormalized (- 3 / 5) (- 1 / 2) (- 4 / 5)) = 2"
proof -
  have a: "vy (fromNormalized (3 / 5) 0 (- 4 / 5)) = 0"
    and b: "vy (fromNormalized (- 3 / 5) 0 (- 4 / 5)) = 0" by simp_all
  from index_root_tie [OF a] have
    "index_root (fromNormalized (3 / 5) 0 (- 4 / 5)) = 0"
    "index_root (fromNormalized (3 / 5) (1 / 2) (- 4 / 5)) = 0" by simp_all
  moreover from index_root_tie [OF b] have
    "index_root (fromNormalized (- 3 / 5) 0 (- 4 / 5)) = 2"
    "index_root (fromNormalized (- 3 / 5) (- 1 / 2) (- 4 / 5)) = 2" by simp_all
  ultimately show ?thesis by simp
qed

section \<open>Errors\<close>

lemma level_zero: "level 0 = - 1"
  by (simp add: level_alt msb_index_zero)

lemma root_field_less: "unat (root_field i) < length HTM_ROOT_VERTEX"
proof -
  have "unat (root_field i) \<le> unat (7 :: uint64)"
    unfolding root_field_def by (rule word_and_le1 [THEN word_le_nat_alt [THEN iffD1]])
  then show ?thesis by (simp add: HTM_ROOT_VERTEX_def)
qed

text \<open>
  Claim C5. \<open>triangle\<close> and \<open>toString\<close> throw exactly when the level of the index is
  outside \<open>[0, MAX_LEVEL]\<close>, in particular for the index 0; the constructor throws
  exactly when the requested level is outside \<open>[0, MAX_LEVEL]\<close>; what is thrown is
  \<open>std::invalid_argument\<close>, and on every other input each of them returns a value.
\<close>

theorem errors_iff:
  "(triangle MAX_LEVEL mid i = Inl (invalid_argument ''Invalid HTM index'')
      \<longleftrightarrow> level i < 0 \<or> level i > MAX_LEVEL)
   \<and> (\<exists>t. triangle MAX_LEVEL mid i = Inr t) = (0 \<le> level i \<and> level i \<le> MAX_LEVEL)
   \<and> (toString MAX_LEVEL i = Inl (invalid_argument ''Invalid HTM index'')
      \<longleftrightarrow> level i < 0 \<or> level i > MAX_LEVEL)
   \<and> (\<exists>s. toString MAX_LEVEL i = Inr s) = (0 \<le> level i \<and> level i \<le> MAX_LEVEL)
   \<and> (HtmPixelization MAX_LEVEL lev = Inl (invalid_argument ''Invalid HTM subdivision level'')
      \<longleftrightarrow> lev < 0 \<or> lev > MAX_LEVEL)
   \<and> (\<exists>pix. HtmPixelization MAX_LEVEL lev = Inr pix) = (0 \<le> lev \<and> lev \<le> MAX_LEVEL)
   \<and> triangle MAX_LEVEL mid 0 = Inl (invalid_argument ''Invalid HTM index'')"
proof -
  have t: "triangle MAX_LEVEL mid i = Inl (invalid_argument ''Invalid HTM index'')
      \<longleftrightarrow> level i < 0 \<or> level i > MAX_LEVEL"
    by (simp add: triangle_def Let_def)
  have t': "(\<exists>t. triangle MAX_LEVEL mid i = Inr t) = (0 \<le> level i \<and> level i \<le> MAX_LEVEL)"
    by (simp add: triangle_def Let_def del: split_paired_Ex)
  have s: "toString MAX_LEVEL i = Inl (invalid_argument ''Invalid HTM index'')
      \<longleftrightarrow> level i < 0 \<or> level i > MAX_LEVEL"
    by (simp add: toString_def Let_def split: prod.splits)
  have s': "(\<exists>s. toString MAX_LEVEL i = Inr s) = (0 \<le> level i \<and> level i \<le> MAX_LEVEL)"
    by (simp add: toString_def Let_def split: prod.splits)
  have c: "HtmPixelization MAX_LEVEL lev = Inl (invalid_argument ''Invalid HTM subdivision level'')
      \<longleftrightarrow> lev < 0 \<or> lev > MAX_LEVEL"
    by (simp add: HtmPixelization_def)
  have c': "(\<exists>pix. HtmPixelization MAX_LEVEL lev = Inr pix) = (0 \<le> lev \<and> lev \<le> MAX_LEVEL)"
    by (simp add: HtmPixelization_def)
  have z: "triangle MAX_LEVEL mid 0 = Inl (invalid_argument ''Invalid HTM index'')"
    by (simp add: triangle_def Let_def level_zero)
  from t t' s s' c c' z show ?thesis by blast
qed

theorem errors_iff_witness:
  "triangle 24 (\<lambda>a b. a) 4 = Inl (invalid_argument ''Invalid HTM index'')
   \<and> toString 24 4 = Inl (invalid_argument ''Invalid HTM index'')
   \<and> HtmPixelization 24 25 = Inl (invalid_argument ''Invalid HTM subdivision level'')
   \<and> (\<exists>t. triangle 24 (\<lambda>a b. a) 13 = Inr t)
   \<and> (\<exists>s. toString 24 13 = Inr s)
   \<and> (\<exists>pix. HtmPixelization 24 24 = Inr pix)"
proof -
  have "level 4 = - 1" "level 13 = 0"
    by (simp_all add: level_alt Let_def msb_index_unique [of 2] msb_index_unique [of 3])
  with errors_iff [of 24 "\<lambda>a b. a" 4 25] errors_iff [of 24 "\<lambda>a b. a" 13 24]
  show ?thesis by simp
qed

section \<open>The string of an index\<close>

lemma length_base4_digits: "length (base4_digits n i) = n"
  by (induction n arbitrary: i) simp_all

lemma drop_update_here:
  "p < length s \<Longrightarrow> drop p (s[p := c]) = c # drop (Suc p) s"
  by (simp add: upd_conv_take_nth_drop)

lemma toString_loop_run:
  "n \<le> p \<Longrightarrow> p < length s \<Longrightarrow>
   toString_loop (int n - 1) p i s =
     (p - n, drop_bit (2 * n) i, take (Suc p - n) s @ base4_digits n i @ drop (Suc p) s)"
proof (induction n arbitrary: p i s)
  case 0
  then show ?case by (subst toString_loop.simps) simp
next
  case (Suc n)
  let ?s1 = "s[p := digit_char i]"
  from Suc.prems have p: "Suc (p - 1) = p" "n \<le> p - 1" "p - 1 < length ?s1" by simp_all
  have "toString_loop (int (Suc n) - 1) p i s =
      toString_loop (int n - 1) (p - 1) (drop_bit 2 i) ?s1"
    by (subst toString_loop.simps) (simp add: digit_char_def)
  also have "toString_loop (int n - 1) (p - 1) (drop_bit 2 i) ?s1 =
      (p - 1 - n, drop_bit (2 * n) (drop_bit 2 i),
       take (Suc (p - 1) - n) ?s1 @ base4_digits n (drop_bit 2 i) @ drop (Suc (p - 1)) ?s1)"
    using p(2,3) by (rule Suc.IH)
  also have "take (Suc (p - 1) - n) ?s1 = take (Suc p - Suc n) s"
  proof -
    have "take (p - n) ?s1 = take (p - n) s" by (rule take_update_cancel) simp
    then show ?thesis by (simp only: p(1) diff_Suc_Suc)
  qed
  also have "drop (Suc (p - 1)) ?s1 = digit_char i # drop (Suc p) s"
    using Suc.prems(2) by (simp only: p(1) drop_update_here)
  also have "drop_bit (2 * n) (drop_bit 2 i) = drop_bit (2 * Suc n) i"
    by (simp add: add.commute)
  also have "p - 1 - n = p - Suc n" by simp
  finally show ?case by simp
qed

lemma toString_eq:
  assumes "0 \<le> level i" and "level i \<le> MAX_LEVEL"
  shows "toString MAX_LEVEL i =
     Inr (hemisphere_char (drop_bit (2 * (nat (level i) + 1)) i)
          # base4_digits (nat (level i) + 1) i)"
proof -
  define n where "n = nat (level i) + 1"
  define s where "s = replicate (nat (MAX_LEVEL + 2)) (CHR 0x00)"
  define p where "p = length s - 1"
  define h where "h = hemisphere_char (drop_bit (2 * n) i)"
  have len: "length s = nat MAX_LEVEL + 2" using assms by (simp add: s_def)
  have p: "p = nat MAX_LEVEL + 1" "Suc p = length s" by (simp_all add: p_def len)
  have n: "n \<le> p" "int n - 1 = level i" using assms by (simp_all add: n_def p)
  have run: "toString_loop (level i) p i s =
      (p - n, drop_bit (2 * n) i, take (Suc (p - n)) s @ base4_digits n i)"
    using toString_loop_run [of n p s i] n p by (simp add: Suc_diff_le)
  have upd: "(take (Suc (p - n)) s @ base4_digits n i)[p - n := h]
      = take (p - n) s @ h # base4_digits n i"
  proof -
    have "p - n < length s" using p by simp
    then have "take (Suc (p - n)) s = take (p - n) s @ [s ! (p - n)]"
      by (rule take_Suc_conv_app_nth)
    moreover have "length (take (p - n) s) = p - n" using p by simp
    ultimately show ?thesis by (simp add: list_update_append)
  qed
  have "drop (p - n) (take (p - n) s @ h # base4_digits n i) = h # base4_digits n i"
    using p by simp
  moreover have "length s - (p - n) = Suc n" using n p by simp
  ultimately have res: "take (length s - (p - n))
      (drop (p - n) (take (p - n) s @ h # base4_digits n i)) = h # base4_digits n i"
    by (simp add: length_base4_digits)
  have valid: "\<not> (level i < 0 \<or> level i > MAX_LEVEL)" using assms by simp
  have "toString MAX_LEVEL i =
      (case toString_loop (level i) p i s of
         (p', i', s') \<Rightarrow>
           Inr (take (length s - p') (drop p' (s'[p' := hemisphere_char i']))))"
    unfolding toString_def Let_def s_def [symmetric] p_def [symmetric]
      hemisphere_char_def [symmetric]
    by (simp only: valid if_False)
  also have "\<dots> = Inr (take (length s - (p - n))
      (drop (p - n) ((take (Suc (p - n)) s @ base4_digits n i)[p - n := h])))"
    by (simp only: run prod.case h_def)
  also have "\<dots> = Inr (h # base4_digits n i)"
    by (simp only: upd res)
  finally have "toString MAX_LEVEL i = Inr (h # base4_digits n i)" .
  then show ?thesis by (simp add: h_def n_def)
qed

lemma and3_cases: "(i AND 3 :: uint64) \<in> {0, 1, 2, 3}"
proof -
  have "unat (i AND 3) \<le> unat (3 :: uint64)"
    by (rule word_and_le1 [THEN word_le_nat_alt [THEN iffD1]])
  then have "unat (i AND 3) \<in> {0, 1, 2, 3}" by auto
  then show ?thesis by (auto simp: word_unat_eq_iff)
qed

lemma char_of_digits:
  "char_of (48::nat) = CHR ''0''" "char_of (49::nat) = CHR ''1''"
  "char_of (50::nat) = CHR ''2''" "char_of (51::nat) = CHR ''3''"
  by code_simp+

lemma digit_char_cases:
  "digit_char i \<in> {CHR ''0'', CHR ''1'', CHR ''2'', CHR ''3''}"
  using and3_cases [of i] by (auto simp: digit_char_def char_of_digits)

lemma base4_digits_chars:
  "set (base4_digits n i) \<subseteq> {CHR ''0'', CHR ''1'', CHR ''2'', CHR ''3''}"
proof (induction n arbitrary: i)
  case 0
  show ?case by simp
next
  case (Suc n)
  from Suc.IH [of "drop_bit 2 i"] digit_char_cases [of i] show ?case by auto
qed

lemma and7_unat: "unat (w AND 7 :: uint64) = unat w mod 8"
proof -
  have "w AND 7 = take_bit 3 w" by (simp add: take_bit_eq_mask mask_eq_exp_minus_1)
  then show ?thesis by (simp add: take_bit_eq_mod unat_mod)
qed

lemma root_field_le: "unat (root_field i) < 8"
  by (simp add: root_field_def and7_unat)

lemma hemisphere_bit: "hemisphere_char (drop_bit 2 w) = (if bit w 2 then CHR ''N'' else CHR ''S'')"
  by (simp add: hemisphere_char_def and_one_eq bit_iff_odd_drop_bit mod_2_eq_odd)

lemma root_bit: "(4 \<le> (w AND 7 :: uint64)) = bit w 2"
proof -
  have "(4 \<le> (w AND 7)) = (4 \<le> unat w mod 8)"
    by (simp add: word_le_nat_alt and7_unat)
  also have "\<dots> = odd (unat w div 4)" by presburger
  also have "\<dots> = bit (unat w) 2" by (simp add: bit_iff_odd)
  also have "\<dots> = bit w 2" by (simp add: bit_unsigned_iff)
  finally show ?thesis .
qed

lemma hemisphere_root:
  assumes "0 \<le> level i"
  shows "hemisphere_char (drop_bit (2 * (nat (level i) + 1)) i)
         = (if 4 \<le> root_field i then CHR ''N'' else CHR ''S'')"
proof -
  define w where "w = drop_bit (nat (level i * 2)) i"
  have "nat (level i * 2) + 2 = 2 * (nat (level i) + 1)" using assms by simp
  then have "drop_bit (2 * (nat (level i) + 1)) i = drop_bit 2 w"
    by (simp add: w_def add.commute)
  then show ?thesis
    by (simp only: hemisphere_bit root_field_def w_def [symmetric] root_bit)
qed

text \<open>
  Claim C9. For a valid index (level within \<open>[0, MAX_LEVEL]\<close>) \<open>toString\<close> returns a
  string of \<open>level + 2\<close> characters; the first is \<open>N\<close> or \<open>S\<close>, all others are digits
  \<open>0\<close> to \<open>3\<close>.
\<close>

theorem toString_shape:
  assumes "0 \<le> level i" and "level i \<le> MAX_LEVEL"
  shows "\<exists>s. toString MAX_LEVEL i = Inr s
           \<and> int (length s) = level i + 2
           \<and> (hd s = CHR ''N'' \<or> hd s = CHR ''S'')
           \<and> set (tl s) \<subseteq> {CHR ''0'', CHR ''1'', CHR ''2'', CHR ''3''}"
proof -
  let ?h = "hemisphere_char (drop_bit (2 * (nat (level i) + 1)) i)"
  let ?d = "base4_digits (nat (level i) + 1) i"
  have "toString MAX_LEVEL i = Inr (?h # ?d)" using assms by (rule toString_eq)
  moreover have "int (length (?h # ?d)) = level i + 2"
    using assms(1) by (simp add: length_base4_digits)
  moreover have "hd (?h # ?d) = CHR ''N'' \<or> hd (?h # ?d) = CHR ''S''"
    by (simp add: hemisphere_char_def)
  moreover have "set (tl (?h # ?d)) \<subseteq> {CHR ''0'', CHR ''1'', CHR ''2'', CHR ''3''}"
    using base4_digits_chars [of "nat (level i) + 1" i] by simp
  ultimately show ?thesis by blast
qed

lemma level_9: "level 9 = 0"
  by (simp add: level_alt Let_def msb_index_unique [of 3])

lemma level_37: "level 37 = 1"
  by (simp add: level_alt Let_def msb_index_unique [of 5])

theorem toString_shape_witness:
  "0 \<le> level 37 \<and> level 37 \<le> 24
   \<and> (\<exists>s. toString 24 37 = Inr s
           \<and> int (length s) = 3
           \<and> (hd s = CHR ''N'' \<or> hd s = CHR ''S'')
           \<and> set (tl s) \<subseteq> {CHR ''0'', CHR ''1'', CHR ''2'', CHR ''3''})"
  using toString_shape [of 37 24] by (simp add: level_37)

text \<open>
  Claim C3, as stated: the first character comes from the low bit of the root field, an
  odd root giving \<open>N\<close>. The index 9 is the level-0 index of root 1: it is valid, its
  root field is 1, which is odd, and its string is \<open>S1\<close>.
\<close>

theorem toString_low_bit_counterexample:
  "level 9 = 0 \<and> root_field 9 = 1 \<and> odd (unat (root_field 9))
   \<and> toString 24 9 = Inr ''S1''"
proof -
  have "root_field 9 = 1" by (simp add: root_field_def level_9)
  moreover have "toString 24 9 = Inr ''S1''" by code_simp
  ultimately show ?thesis by (simp add: level_9)
qed

text \<open>
  Claim C3, amended. For a valid index the first character of \<open>toString\<close> comes from
  the high bit of the 3-bit root field: roots 4 to 7 (the northern roots of \<open>index\<close>)
  give \<open>N\<close>, roots 0 to 3 give \<open>S\<close>.
\<close>

theorem toString_hemisphere:
  assumes "0 \<le> level i" and "level i \<le> MAX_LEVEL"
  shows "\<exists>s. toString MAX_LEVEL i = Inr s \<and> s \<noteq> []
           \<and> hd s = (if 4 \<le> root_field i then CHR ''N'' else CHR ''S'')
           \<and> root_field i \<le> 7"
proof -
  have "toString MAX_LEVEL i =
      Inr ((if 4 \<le> root_field i then CHR ''N'' else CHR ''S'')
           # base4_digits (nat (level i) + 1) i)"
    using assms by (simp only: toString_eq hemisphere_root)
  moreover have "root_field i \<le> 7"
    using root_field_le [of i] by (simp add: word_le_nat_alt)
  ultimately show ?thesis by simp
qed

theorem toString_hemisphere_witness:
  "0 \<le> level 9 \<and> level 9 \<le> 24 \<and> root_field 9 = 1
   \<and> (\<exists>s. toString 24 9 = Inr s \<and> s \<noteq> [] \<and> hd s = CHR ''S'')
   \<and> 0 \<le> level 13 \<and> level 13 \<le> 24 \<and> root_field 13 = 5
   \<and> (\<exists>s. toString 24 13 = Inr s \<and> s \<noteq> [] \<and> hd s = CHR ''N'')"
proof -
  have l: "level 9 = 0" "level 13 = 0"
    by (simp_all add: level_alt Let_def msb_index_unique [of 3])
  have r: "root_field 9 = 1" "root_field 13 = 5"
    by (simp_all add: root_field_def l)
  have c: "\<not> 4 \<le> (1 :: uint64)" "4 \<le> (5 :: uint64)"
    by (simp_all add: word_le_nat_alt)
  from toString_hemisphere [of 9 24] toString_hemisphere [of 13 24] show ?thesis
    by (simp add: l r c)
qed

section \<open>The child number in the low bits of an index\<close>

lemma low_bits_child:
  fixes i :: uint64
  assumes "k < 4"
  shows "uint ((4 * i + of_nat k) AND 3) = int k"
proof -
  have "(4 * i + of_nat k) AND 3 = take_bit 2 (4 * i + of_nat k)"
    by (simp add: take_bit_eq_mask mask_eq_exp_minus_1)
  also have "\<dots> = (4 * i + of_nat k) mod 4" by (simp add: take_bit_eq_mod)
  finally have "unat ((4 * i + of_nat k) AND 3) = unat (4 * i + of_nat k) mod 4"
    by (simp add: unat_mod)
  also have "\<dots> = ((4 * unat i + k) mod 2 ^ 64) mod 4"
    using assms by (simp add: unat_word_ariths unat_of_nat mod_simps)
  also have "\<dots> = (4 * unat i + k) mod 4"
    by (simp add: mod_mod_cancel)
  also have "\<dots> = k" using assms by simp
  finally show ?thesis by (simp add: uint_nat)
qed

section \<open>Descendant ranges\<close>

lemma child_ids_eq: "child_ids mid t i l = [4 * i, 4 * i + 1, 4 * i + 2, 4 * i + 3]"
  by (cases t) (simp add: child_ids_def subdivide_def Let_def mult.commute add.assoc)

lemma subdivide_nodes:
  "\<exists>c0 c1 c2 c3. subdivide mid t i l =
     [(c0, 4 * i, l + 1), (c1, 4 * i + 1, l + 1), (c2, 4 * i + 2, l + 1), (c3, 4 * i + 3, l + 1)]"
  by (cases t) (simp add: subdivide_def Let_def mult.commute add.assoc)

lemma descendant_ids_0: "descendant_ids mid 0 t i l = [i]"
  by (simp add: descendant_ids_def)

lemma descendant_ids_Suc:
  "\<exists>c0 c1 c2 c3. descendant_ids mid (Suc n) t i l =
     descendant_ids mid n c0 (4 * i) (l + 1) @ descendant_ids mid n c1 (4 * i + 1) (l + 1)
     @ descendant_ids mid n c2 (4 * i + 2) (l + 1) @ descendant_ids mid n c3 (4 * i + 3) (l + 1)"
proof -
  from subdivide_nodes [of mid t i l] obtain c0 c1 c2 c3 where
    "subdivide mid t i l =
     [(c0, 4 * i, l + 1), (c1, 4 * i + 1, l + 1), (c2, 4 * i + 2, l + 1), (c3, 4 * i + 3, l + 1)]"
    by blast
  then have "descendant_ids mid (Suc n) t i l =
     descendant_ids mid n c0 (4 * i) (l + 1) @ descendant_ids mid n c1 (4 * i + 1) (l + 1)
     @ descendant_ids mid n c2 (4 * i + 2) (l + 1) @ descendant_ids mid n c3 (4 * i + 3) (l + 1)"
    by (simp add: descendant_ids_def)
  then show ?thesis by blast
qed

lemma unat_children:
  fixes i :: uint64
  assumes "4 * unat i + 3 < 2 ^ 64"
  shows "unat (4 * i) = 4 * unat i" "unat (4 * i + 1) = 4 * unat i + 1"
    "unat (4 * i + 2) = 4 * unat i + 2" "unat (4 * i + 3) = 4 * unat i + 3"
proof -
  have c: "unat (4 * i + of_nat k) = 4 * unat i + k" if "k < 4" for k
  proof -
    have "unat (4 * i + of_nat k) = (4 * unat i + k) mod 2 ^ 64"
      using that by (simp add: unat_word_ariths unat_of_nat mod_simps)
    with assms that show ?thesis by simp
  qed
  from c [of 0] c [of 1] c [of 2] c [of 3]
  show "unat (4 * i) = 4 * unat i" "unat (4 * i + 1) = 4 * unat i + 1"
    "unat (4 * i + 2) = 4 * unat i + 2" "unat (4 * i + 3) = 4 * unat i + 3"
    by simp_all
qed

lemma upt_split4:
  fixes a p :: nat
  shows "[4 * a * p ..< (4 * a + 4) * p] =
     [4 * a * p ..< (4 * a + 1) * p] @ [(4 * a + 1) * p ..< (4 * a + 2) * p]
     @ [(4 * a + 2) * p ..< (4 * a + 3) * p] @ [(4 * a + 3) * p ..< (4 * a + 4) * p]"
proof -
  have le: "x * p \<le> y * p" if "x \<le> y" for x y :: nat
    using that by (rule mult_le_mono1)
  have app: "[x ..< z] = [x ..< y] @ [y ..< z]" if "x \<le> y" "y \<le> z" for x y z :: nat
    using that by (metis le_Suc_ex upt_add_eq_append)
  have "[(4 * a + 2) * p ..< (4 * a + 4) * p] =
      [(4 * a + 2) * p ..< (4 * a + 3) * p] @ [(4 * a + 3) * p ..< (4 * a + 4) * p]"
    by (rule app; rule le) simp_all
  moreover have "[(4 * a + 1) * p ..< (4 * a + 4) * p] =
      [(4 * a + 1) * p ..< (4 * a + 2) * p] @ [(4 * a + 2) * p ..< (4 * a + 4) * p]"
    by (rule app; rule le) simp_all
  moreover have "[4 * a * p ..< (4 * a + 4) * p] =
      [4 * a * p ..< (4 * a + 1) * p] @ [(4 * a + 1) * p ..< (4 * a + 4) * p]"
    by (rule app; rule le) simp_all
  ultimately show ?thesis by simp
qed

lemma descendant_ids_unat:
  "(unat i + 1) * 4 ^ n \<le> 2 ^ 64 \<Longrightarrow>
   map unat (descendant_ids mid n t i l) = [unat i * 4 ^ n ..< (unat i + 1) * 4 ^ n]"
proof (induction n arbitrary: t i l)
  case 0
  show ?case by (simp add: descendant_ids_0)
next
  case (Suc n)
  have pos: "(1::nat) \<le> 4 ^ n" by simp
  from Suc.prems have big: "(4 * unat i + 4) * 4 ^ n \<le> 2 ^ 64" by (simp add: algebra_simps)
  have "(4 * unat i + 4) * 1 \<le> (4 * unat i + 4) * 4 ^ n"
    using pos by (rule mult_le_mono2)
  then have "4 * unat i + 4 \<le> (4 * unat i + 4) * 4 ^ n" by (simp only: mult_1_right)
  from this big have "4 * unat i + 4 \<le> 2 ^ 64" by (rule order_trans)
  then have small: "4 * unat i + 3 < 2 ^ 64" by linarith
  note u = unat_children [OF small]
  have child: "map unat (descendant_ids mid n c j (l + 1)) =
      [(4 * unat i + k) * 4 ^ n ..< (4 * unat i + k + 1) * 4 ^ n]"
    if "unat j = 4 * unat i + k" and "k < 4" for c j k
  proof -
    have "4 * unat i + k + 1 \<le> 4 * unat i + 4" using that(2) by simp
    then have "(4 * unat i + k + 1) * 4 ^ n \<le> (4 * unat i + 4) * 4 ^ n"
      by (rule mult_le_mono1)
    from this big have "(4 * unat i + k + 1) * 4 ^ n \<le> 2 ^ 64" by (rule order_trans)
    then have "(unat j + 1) * 4 ^ n \<le> 2 ^ 64" by (simp only: that(1))
    from Suc.IH [OF this] show ?thesis by (simp only: that(1))
  qed
  have e: "4 * unat i + 0 = 4 * unat i" "4 * unat i + 0 + 1 = 4 * unat i + 1"
    "4 * unat i + 1 + 1 = 4 * unat i + 2" "4 * unat i + 2 + 1 = 4 * unat i + 3"
    "4 * unat i + 3 + 1 = 4 * unat i + 4" by simp_all
  from descendant_ids_Suc [of mid n t i l] obtain c0 c1 c2 c3 where
    split: "descendant_ids mid (Suc n) t i l =
     descendant_ids mid n c0 (4 * i) (l + 1) @ descendant_ids mid n c1 (4 * i + 1) (l + 1)
     @ descendant_ids mid n c2 (4 * i + 2) (l + 1) @ descendant_ids mid n c3 (4 * i + 3) (l + 1)"
    by blast
  have d0: "map unat (descendant_ids mid n c0 (4 * i) (l + 1)) =
      [4 * unat i * 4 ^ n ..< (4 * unat i + 1) * 4 ^ n]"
    using child [of "4 * i" 0 c0] u(1) unfolding e by simp
  have d1: "map unat (descendant_ids mid n c1 (4 * i + 1) (l + 1)) =
      [(4 * unat i + 1) * 4 ^ n ..< (4 * unat i + 2) * 4 ^ n]"
    using child [of "4 * i + 1" 1 c1] u(2) unfolding e by simp
  have d2: "map unat (descendant_ids mid n c2 (4 * i + 2) (l + 1)) =
      [(4 * unat i + 2) * 4 ^ n ..< (4 * unat i + 3) * 4 ^ n]"
    using child [of "4 * i + 2" 2 c2] u(3) unfolding e by simp
  have d3: "map unat (descendant_ids mid n c3 (4 * i + 3) (l + 1)) =
      [(4 * unat i + 3) * 4 ^ n ..< (4 * unat i + 4) * 4 ^ n]"
    using child [of "4 * i + 3" 3 c3] u(4) unfolding e by simp
  have "map unat (descendant_ids mid (Suc n) t i l) =
      [4 * unat i * 4 ^ n ..< (4 * unat i + 4) * 4 ^ n]"
    by (simp only: split map_append d0 d1 d2 d3 upt_split4 [of "unat i" "4 ^ n"])
  moreover have "4 * unat i * 4 ^ n = unat i * 4 ^ Suc n" by simp
  moreover have "(4 * unat i + 4) * 4 ^ n = (unat i + 1) * 4 ^ Suc n" by (simp add: algebra_simps)
  ultimately show ?case by simp
qed

lemma unat_push_bit_4:
  fixes j :: uint64
  assumes "unat j * 4 ^ n < 2 ^ 64"
  shows "unat (push_bit (2 * n) j) = unat j * 4 ^ n"
proof -
  have "unat (push_bit (2 * n) j) = take_bit 64 (push_bit (2 * n) (unat j))"
    by (simp add: unsigned_push_bit_eq)
  also have "\<dots> = (unat j * 4 ^ n) mod 2 ^ 64"
    by (simp add: take_bit_eq_mod push_bit_eq_mult power_mult)
  also have "\<dots> = unat j * 4 ^ n" using assms by simp
  finally show ?thesis .
qed

lemma unat_succ:
  fixes i :: uint64
  assumes "unat i + 1 < 2 ^ 64"
  shows "unat (i + 1) = unat i + 1"
proof -
  have "unat (i + 1) = (unat i + 1) mod 2 ^ 64" by (simp add: unat_word_ariths)
  with assms show ?thesis by simp
qed

lemma in_id_range:
  fixes i :: uint64
  assumes "(unat i + 1) * 4 ^ n < 2 ^ 64"
  shows "x \<in> id_range i n \<longleftrightarrow> unat i * 4 ^ n \<le> unat x \<and> unat x < (unat i + 1) * 4 ^ n"
proof -
  have "(unat i + 1) * 1 \<le> (unat i + 1) * 4 ^ n" by (rule mult_le_mono2) simp
  with assms have s: "unat i + 1 < 2 ^ 64" by simp
  have "unat i * 4 ^ n \<le> (unat i + 1) * 4 ^ n" by (rule mult_le_mono1) simp
  with assms have lo: "unat i * 4 ^ n < 2 ^ 64" by simp
  have hi: "unat (i + 1) * 4 ^ n < 2 ^ 64" using assms by (simp only: unat_succ [OF s])
  show ?thesis
    unfolding id_range_def
    by (simp only: atLeastLessThan_iff word_le_nat_alt word_less_nat_alt
        unat_push_bit_4 [OF lo] unat_push_bit_4 [OF hi] unat_succ [OF s])
qed

lemma descendant_ids_range:
  assumes "(unat i + 1) * 4 ^ n < 2 ^ 64"
  shows "set (descendant_ids mid n t i l) = id_range i n"
    and "distinct (descendant_ids mid n t i l)"
proof -
  from assms have le: "(unat i + 1) * 4 ^ n \<le> 2 ^ 64" by simp
  note m = descendant_ids_unat [OF le, of mid t l]
  have "distinct (map unat (descendant_ids mid n t i l))" by (simp only: m distinct_upt)
  then show "distinct (descendant_ids mid n t i l)" by (simp add: distinct_map)
  show "set (descendant_ids mid n t i l) = id_range i n"
  proof (rule set_eqI)
    fix x
    have "x \<in> set (descendant_ids mid n t i l)
        \<longleftrightarrow> unat x \<in> unat ` set (descendant_ids mid n t i l)"
      by (simp add: inj_image_mem_iff [OF inj_unsigned] del: set_map)
    also have "\<dots> \<longleftrightarrow> unat x \<in> set (map unat (descendant_ids mid n t i l))" by simp
    also have "\<dots> \<longleftrightarrow> unat i * 4 ^ n \<le> unat x \<and> unat x < (unat i + 1) * 4 ^ n"
      by (simp only: m set_upt atLeastLessThan_iff)
    also have "\<dots> \<longleftrightarrow> x \<in> id_range i n" by (simp only: in_id_range [OF assms])
    finally show "x \<in> set (descendant_ids mid n t i l) \<longleftrightarrow> x \<in> id_range i n" .
  qed
qed

lemma quarter_split:
  fixes X u P :: nat
  shows "(4 * u * P \<le> X \<and> X < (4 * u + 4) * P) \<longleftrightarrow>
     (4 * u * P \<le> X \<and> X < (4 * u + 1) * P) \<or> ((4 * u + 1) * P \<le> X \<and> X < (4 * u + 2) * P)
     \<or> ((4 * u + 2) * P \<le> X \<and> X < (4 * u + 3) * P)
     \<or> ((4 * u + 3) * P \<le> X \<and> X < (4 * u + 4) * P)"
proof -
  define U where "U = 4 * u * P"
  have e: "(4 * u + 1) * P = U + P" "(4 * u + 2) * P = U + 2 * P"
    "(4 * u + 3) * P = U + 3 * P" "(4 * u + 4) * P = U + 4 * P"
    by (simp_all add: U_def algebra_simps)
  show ?thesis unfolding e U_def [symmetric] by linarith
qed

lemma valid_range_bound:
  assumes lv: "level i = l" and l0: "0 \<le> l" and lL: "l \<le> L" and L29: "L \<le> 29"
  shows "(unat i + 1) * 4 ^ nat (L - l) < 2 ^ 64"
proof -
  from lv l0 have "level i = int (nat l)" by simp
  from level_nonneg_bounds [OF this] have "unat i + 1 \<le> 16 * 4 ^ nat l" by simp
  then have "(unat i + 1) * 4 ^ nat (L - l) \<le> (16 * 4 ^ nat l) * 4 ^ nat (L - l)"
    by (rule mult_le_mono1)
  also have "\<dots> = 16 * 4 ^ (nat l + nat (L - l))" by (simp add: power_add)
  also have "nat l + nat (L - l) = nat L" using l0 lL by simp
  also have "(16::nat) * 4 ^ nat L \<le> 16 * 4 ^ 29"
    using L29 by (intro mult_le_mono2 power_increasing) simp_all
  also have "\<dots> < (2::nat) ^ 64" by simp
  finally show ?thesis .
qed

lemma child_ranges:
  fixes i :: uint64
  assumes big: "(unat i + 1) * 4 ^ Suc m < 2 ^ 64"
  shows "id_range (4 * i) m \<union> id_range (4 * i + 1) m \<union> id_range (4 * i + 2) m
           \<union> id_range (4 * i + 3) m = id_range i (Suc m)"
    and "\<And>k k'. k < 4 \<Longrightarrow> k' < 4 \<Longrightarrow> k \<noteq> k' \<Longrightarrow>
           id_range (4 * i + of_nat k) m \<inter> id_range (4 * i + of_nat k') m = {}"
    and "\<And>k. k < 4 \<Longrightarrow> id_range (4 * i + of_nat k) m \<noteq> {}"
    and "\<And>k. k < 4 \<Longrightarrow> id_range (4 * i + of_nat k) m \<subseteq> id_range i (Suc m)"
proof -
  define u where "u = unat i"
  define P :: nat where "P = 4 ^ m"
  have P: "0 < P" by (simp add: P_def)
  have big': "(4 * u + 4) * P < 2 ^ 64"
    using big by (simp add: u_def P_def algebra_simps)
  have "(4 * u + 4) * 1 \<le> (4 * u + 4) * P" using P by (intro mult_le_mono2) simp
  then have "4 * u + 4 \<le> (4 * u + 4) * P" by (simp only: mult_1_right)
  from this big' have small: "4 * u + 4 < 2 ^ 64" by (rule le_less_trans)
  have uc: "unat (4 * i + of_nat k) = 4 * u + k" if "k < 4" for k
    unfolding u_def using small that by (intro unat_child) (simp_all add: u_def)
  have bk: "(4 * u + k + 1) * P < 2 ^ 64" if "k < 4" for k
  proof -
    have "(4 * u + k + 1) * P \<le> (4 * u + 4) * P" using that by (intro mult_le_mono1) simp
    with big' show ?thesis by simp
  qed
  have r: "x \<in> id_range (4 * i + of_nat k) m
      \<longleftrightarrow> (4 * u + k) * P \<le> unat x \<and> unat x < (4 * u + k + 1) * P" if "k < 4" for k x
  proof -
    have "(unat (4 * i + of_nat k) + 1) * 4 ^ m < 2 ^ 64"
      using bk [OF that] by (simp only: uc [OF that] P_def)
    from in_id_range [OF this] show ?thesis by (simp only: uc [OF that] P_def)
  qed
  have rp: "x \<in> id_range i (Suc m) \<longleftrightarrow> 4 * u * P \<le> unat x \<and> unat x < (4 * u + 4) * P" for x
  proof -
    have e: "unat i * 4 ^ Suc m = 4 * u * P" "(unat i + 1) * 4 ^ Suc m = (4 * u + 4) * P"
      by (simp_all add: u_def P_def algebra_simps)
    from in_id_range [OF big, of x] show ?thesis by (simp only: e)
  qed
  have k: "(0::nat) < 4" "(1::nat) < 4" "(2::nat) < 4" "(3::nat) < 4" by simp_all
  have w: "4 * i + of_nat 0 = 4 * i" "4 * i + of_nat 1 = 4 * i + 1"
    "4 * i + of_nat 2 = 4 * i + 2" "4 * i + of_nat 3 = 4 * i + 3" by simp_all
  have e: "4 * u + 0 = 4 * u" "4 * u + 1 + 1 = 4 * u + 2" "4 * u + 2 + 1 = 4 * u + 3"
    "4 * u + 3 + 1 = 4 * u + 4" by simp_all
  note r4 = r [OF k(1), unfolded w e] r [OF k(2), unfolded w e]
    r [OF k(3), unfolded w e] r [OF k(4), unfolded w e]
  show "id_range (4 * i) m \<union> id_range (4 * i + 1) m \<union> id_range (4 * i + 2) m
           \<union> id_range (4 * i + 3) m = id_range i (Suc m)"
  proof (rule set_eqI)
    fix x
    show "x \<in> id_range (4 * i) m \<union> id_range (4 * i + 1) m \<union> id_range (4 * i + 2) m
           \<union> id_range (4 * i + 3) m \<longleftrightarrow> x \<in> id_range i (Suc m)"
      unfolding Un_iff r4 rp quarter_split [of u P "unat x"] by blast
  qed
  have lt: "id_range (4 * i + of_nat k) m \<inter> id_range (4 * i + of_nat k') m = {}"
    if "k < k'" "k' < 4" for k k'
  proof (rule equals0I)
    fix x assume "x \<in> id_range (4 * i + of_nat k) m \<inter> id_range (4 * i + of_nat k') m"
    with that have a: "unat x < (4 * u + k + 1) * P" and b: "(4 * u + k') * P \<le> unat x"
      by (simp_all add: r)
    have "(4 * u + k + 1) * P \<le> (4 * u + k') * P" using that by (intro mult_le_mono1) simp
    with a b show False by simp
  qed
  show "id_range (4 * i + of_nat k) m \<inter> id_range (4 * i + of_nat k') m = {}"
    if "k < 4" "k' < 4" "k \<noteq> k'" for k k'
  proof (cases "k < k'")
    case True
    then show ?thesis using that by (intro lt)
  next
    case False
    with that have "k' < k" by simp
    then have "id_range (4 * i + of_nat k') m \<inter> id_range (4 * i + of_nat k) m = {}"
      using that by (intro lt)
    then show ?thesis by (simp only: Int_commute)
  qed
  show "id_range (4 * i + of_nat k) m \<noteq> {}" if "k < 4" for k
  proof -
    have "(4 * u + k) * P \<le> (4 * u + k + 1) * P" by (intro mult_le_mono1) simp
    with bk [OF that] have "unat (4 * i + of_nat k) * 4 ^ m < 2 ^ 64"
      by (simp only: uc [OF that] P_def)
    from unat_push_bit_4 [OF this]
    have e: "unat (push_bit (2 * m) (4 * i + of_nat k)) = (4 * u + k) * P"
      by (simp only: uc [OF that] P_def)
    have "(4 * u + k) * P < (4 * u + k + 1) * P" using P by simp
    then have "push_bit (2 * m) (4 * i + of_nat k) \<in> id_range (4 * i + of_nat k) m"
      by (simp only: r [OF that] e) simp
    then show ?thesis by blast
  qed
  show "id_range (4 * i + of_nat k) m \<subseteq> id_range i (Suc m)" if "k < 4" for k
  proof
    fix x assume "x \<in> id_range (4 * i + of_nat k) m"
    then have a: "(4 * u + k) * P \<le> unat x" and b: "unat x < (4 * u + k + 1) * P"
      by (simp_all only: r [OF that])
    have "4 * u * P \<le> (4 * u + k) * P" by (intro mult_le_mono1) simp
    from this a have lo: "4 * u * P \<le> unat x" by (rule order_trans)
    have "(4 * u + k + 1) * P \<le> (4 * u + 4) * P" using that by (intro mult_le_mono1) simp
    from b this have hi: "unat x < (4 * u + 4) * P" by (rule less_le_trans)
    from lo hi show "x \<in> id_range i (Suc m)" by (simp only: rp)
  qed
qed

text \<open>
  Claim C7. For a node with index \<open>i\<close> at level \<open>l\<close> and a target level \<open>L \<ge> l\<close>, the
  indexes that \<open>L - l\<close> rounds of \<open>subdivide\<close> reach from \<open>i\<close> are exactly the range
  \<open>[i << 2(L-l), (i+1) << 2(L-l))\<close>, each once. When \<open>l < L\<close>, the four children
  \<open>4i, 4i+1, 4i+2, 4i+3\<close> that \<open>subdivide\<close> produces are nodes of level \<open>l + 1\<close> whose
  ranges (for the same \<open>L\<close>) together make up the range of \<open>i\<close>, are pairwise disjoint,
  and are each a proper subset of it. \<open>MAX_LEVEL\<close> is declared in the header; up to
  level 29 the shifted bounds stay below \<open>2^64\<close>, which is what the proof needs of it.
\<close>

theorem descendant_range:
  assumes lv: "level i = l" and l0: "0 \<le> l" and lL: "l \<le> L"
    and LM: "L \<le> MAX_LEVEL" and M29: "MAX_LEVEL \<le> 29"
  shows "set (descendant_ids mid (nat (L - l)) t i l) = id_range i (nat (L - l))
    \<and> distinct (descendant_ids mid (nat (L - l)) t i l)
    \<and> (l < L \<longrightarrow>
         child_ids mid t i l = [4 * i, 4 * i + 1, 4 * i + 2, 4 * i + 3]
         \<and> (\<forall>c \<in> set (child_ids mid t i l). level c = l + 1)
         \<and> (\<Union>c \<in> set (child_ids mid t i l). id_range c (nat (L - (l + 1))))
             = id_range i (nat (L - l))
         \<and> (\<forall>c \<in> set (child_ids mid t i l).
               id_range c (nat (L - (l + 1))) \<subset> id_range i (nat (L - l)))
         \<and> (\<forall>c \<in> set (child_ids mid t i l). \<forall>c' \<in> set (child_ids mid t i l).
               c \<noteq> c' \<longrightarrow>
               id_range c (nat (L - (l + 1))) \<inter> id_range c' (nat (L - (l + 1))) = {}))"
proof (intro conjI impI)
  from LM M29 have L29: "L \<le> 29" by simp
  note B = valid_range_bound [OF lv l0 lL L29]
  show "set (descendant_ids mid (nat (L - l)) t i l) = id_range i (nat (L - l))"
    by (rule descendant_ids_range(1) [OF B])
  show "distinct (descendant_ids mid (nat (L - l)) t i l)"
    by (rule descendant_ids_range(2) [OF B])
  assume less: "l < L"
  define m where "m = nat (L - (l + 1))"
  have n: "nat (L - l) = Suc m" using less by (simp add: m_def)
  note B' = B [unfolded n]
  note cr = child_ranges [OF B']
  let ?cs = "child_ids mid t i l"
  show cs: "?cs = [4 * i, 4 * i + 1, 4 * i + 2, 4 * i + 3]" by (rule child_ids_eq)
  have k: "(0::nat) < 4" "(1::nat) < 4" "(2::nat) < 4" "(3::nat) < 4" by simp_all
  have mem: "\<exists>k<4. c = 4 * i + of_nat k" if "c \<in> set ?cs" for c
  proof -
    from that have "c = 4 * i + of_nat 0 \<or> c = 4 * i + of_nat 1
        \<or> c = 4 * i + of_nat 2 \<or> c = 4 * i + of_nat 3"
      by (auto simp: cs)
    with k show ?thesis by blast
  qed
  show "\<forall>c \<in> set ?cs. level c = l + 1"
  proof
    fix c assume c: "c \<in> set ?cs"
    from lv l0 have "level i = int (nat l)" by simp
    from level_nonneg_bounds [OF this]
    have lo: "8 * 4 ^ nat l \<le> unat i" and hi: "unat i < 16 * 4 ^ nat l" by simp_all
    have l30: "nat l < 30" using less L29 l0 by simp
    from c have "c \<in> {4 * i, 4 * i + 1, 4 * i + 2, 4 * i + 3}" by (simp add: cs)
    from step_bounds [OF lo hi l30 this]
    have "level c = int (Suc (nat l))" by (intro level_of_bounds) simp_all
    then show "level c = l + 1" using l0 by simp
  qed
  show "(\<Union>c \<in> set ?cs. id_range c (nat (L - (l + 1)))) = id_range i (nat (L - l))"
    unfolding n m_def [symmetric] cr(1) [symmetric] by (simp add: cs Un_assoc)
  show "\<forall>c \<in> set ?cs. id_range c (nat (L - (l + 1))) \<subset> id_range i (nat (L - l))"
    unfolding n m_def [symmetric]
  proof
    fix c assume "c \<in> set ?cs"
    from mem [OF this] obtain j where j: "j < 4" "c = 4 * i + of_nat j" by blast
    define j' :: nat where "j' = (if j = 0 then 1 else 0)"
    have j': "j' < 4" "j \<noteq> j'" by (simp_all add: j'_def)
    from cr(3) [OF j'(1)] obtain e where e: "e \<in> id_range (4 * i + of_nat j') m" by blast
    with cr(2) [OF j(1) j'(1) j'(2)] have "e \<notin> id_range c m" unfolding j(2) by blast
    moreover from e cr(4) [OF j'(1)] have "e \<in> id_range i (Suc m)" by blast
    moreover have "id_range c m \<subseteq> id_range i (Suc m)" unfolding j(2) by (rule cr(4) [OF j(1)])
    ultimately show "id_range c m \<subset> id_range i (Suc m)" by blast
  qed
  show "\<forall>c \<in> set ?cs. \<forall>c' \<in> set ?cs. c \<noteq> c' \<longrightarrow>
      id_range c (nat (L - (l + 1))) \<inter> id_range c' (nat (L - (l + 1))) = {}"
    unfolding m_def [symmetric]
  proof (intro ballI impI)
    fix c c' assume "c \<in> set ?cs" "c' \<in> set ?cs" and ne: "c \<noteq> c'"
    from mem [OF this(1)] obtain j where j: "j < 4" "c = 4 * i + of_nat j" by blast
    from mem [OF \<open>c' \<in> set ?cs\<close>] obtain j' where j': "j' < 4" "c' = 4 * i + of_nat j'" by blast
    from ne have "j \<noteq> j'" unfolding j(2) j'(2) by blast
    from cr(2) [OF j(1) j'(1) this] show "id_range c m \<inter> id_range c' m = {}"
      unfolding j(2) j'(2) .
  qed
qed

lemma level_8: "level 8 = 0"
  by (simp add: level_alt Let_def msb_index_unique [of 3])

theorem descendant_range_witness:
  "level 8 = 0 \<and> (0::int) < 1 \<and> (1::int) \<le> 24 \<and> (24::int) \<le> 29
   \<and> set (descendant_ids (\<lambda>a b. a) 1 (root_trixel 0) 8 0) = id_range 8 1
   \<and> child_ids (\<lambda>a b. a) (root_trixel 0) 8 0 = [32, 33, 34, 35]
   \<and> id_range 32 0 \<subset> id_range 8 1
   \<and> id_range 32 0 \<inter> id_range 33 0 = {}"
proof -
  have "set (descendant_ids (\<lambda>a b. a) (nat (1 - 0)) (root_trixel 0) 8 0) = id_range 8 (nat (1 - 0))
    \<and> distinct (descendant_ids (\<lambda>a b. a) (nat (1 - 0)) (root_trixel 0) 8 0)
    \<and> ((0::int) < 1 \<longrightarrow>
         child_ids (\<lambda>a b. a) (root_trixel 0) 8 0 = [4 * 8, 4 * 8 + 1, 4 * 8 + 2, 4 * 8 + 3]
         \<and> (\<forall>c \<in> set (child_ids (\<lambda>a b. a) (root_trixel 0) 8 0). level c = 0 + 1)
         \<and> (\<Union>c \<in> set (child_ids (\<lambda>a b. a) (root_trixel 0) 8 0). id_range c (nat (1 - (0 + 1))))
             = id_range 8 (nat (1 - 0))
         \<and> (\<forall>c \<in> set (child_ids (\<lambda>a b. a) (root_trixel 0) 8 0).
               id_range c (nat (1 - (0 + 1))) \<subset> id_range 8 (nat (1 - 0)))
         \<and> (\<forall>c \<in> set (child_ids (\<lambda>a b. a) (root_trixel 0) 8 0).
              \<forall>c' \<in> set (child_ids (\<lambda>a b. a) (root_trixel 0) 8 0).
               c \<noteq> c' \<longrightarrow>
               id_range c (nat (1 - (0 + 1))) \<inter> id_range c' (nat (1 - (0 + 1))) = {}))"
    by (rule descendant_range [of 8 0 1 24]) (simp_all add: level_8)
  then show ?thesis by (simp add: level_8)
qed

section \<open>\<open>triangle\<close> replays the descent of \<open>index\<close>\<close>

lemma index_step_replay:
  "\<exists>k<4. index_step orientation mid v (t, i) = (triangle_step mid (int k) t, 4 * i + of_nat k)"
proof -
  obtain v0 v1 v2 where t: "t = (v0, v1, v2)" by (cases t)
  have k: "(0::nat) < 4" "(1::nat) < 4" "(2::nat) < 4" "(3::nat) < 4" by simp_all
  have "index_step orientation mid v (t, i) = (triangle_step mid (int 0) t, 4 * i + of_nat 0)
      \<or> index_step orientation mid v (t, i) = (triangle_step mid (int 1) t, 4 * i + of_nat 1)
      \<or> index_step orientation mid v (t, i) = (triangle_step mid (int 2) t, 4 * i + of_nat 2)
      \<or> index_step orientation mid v (t, i) = (triangle_step mid (int 3) t, 4 * i + of_nat 3)"
    by (simp add: t index_step_def triangle_step_def Let_def push_bit_eq_mult mult.commute)
  with k show ?thesis by blast
qed

lemma drop_child:
  fixes i :: uint64
  assumes "4 * unat i + 3 < 2 ^ 64" and "k < 4"
  shows "drop_bit 2 (4 * i + of_nat k) = i"
proof -
  have "unat (4 * i + of_nat k) = 4 * unat i + k"
    using assms by (intro unat_child) simp_all
  moreover have "unat (drop_bit 2 (4 * i + of_nat k)) = unat (4 * i + of_nat k) div 4"
    by (simp add: drop_bit_eq_div unat_div)
  ultimately have "unat (drop_bit 2 (4 * i + of_nat k)) = (4 * unat i + k) div 4"
    by (simp only:)
  also have "\<dots> = unat i" using assms(2) by simp
  finally show ?thesis by (simp add: word_unat_eq_iff)
qed

lemma index_loop_prefix:
  assumes "0 \<le> l" and "l \<le> lev" and "lev \<le> 30"
    and "8 * 4 ^ nat l \<le> unat (snd st)" and "unat (snd st) < 16 * 4 ^ nat l"
  shows "drop_bit (2 * nat (lev - l)) (snd (index_loop orientation mid v lev l st)) = snd st"
  using assms
proof (induction orientation mid v lev l st rule: index_loop.induct)
  case (1 orientation mid v lev l st)
  show ?case
  proof (cases "l < lev")
    case True
    obtain t i where st: "st = (t, i)" by (cases st)
    let ?st' = "index_step orientation mid v st"
    from index_step_replay [of orientation mid v t i] obtain k where
      k: "k < 4" and step: "?st' = (triangle_step mid (int k) t, 4 * i + of_nat k)"
      unfolding st by blast
    have mem: "snd ?st' \<in> {4 * i, 4 * i + 1, 4 * i + 2, 4 * i + 3}"
      unfolding st by (rule index_step_snd)
    have l30: "nat l < 30" using True "1.prems" by simp
    have b: "8 * 4 ^ Suc (nat l) \<le> unat (snd ?st') \<and> unat (snd ?st') < 16 * 4 ^ Suc (nat l)"
      using "1.prems"(4,5) l30 mem unfolding st by (intro step_bounds) simp_all
    have S: "Suc (nat l) = nat (l + 1)" using "1.prems"(1) by simp
    have IH: "drop_bit (2 * nat (lev - (l + 1)))
        (snd (index_loop orientation mid v lev (l + 1) ?st')) = snd ?st'"
      using True "1.prems"(1,3) b unfolding S by (intro "1.IH") simp_all
    have "(4::nat) ^ nat l \<le> 4 ^ 29" using l30 by (intro power_increasing) simp_all
    with "1.prems"(5) have small: "4 * unat i + 3 < 2 ^ 64" unfolding st by simp
    have unf: "index_loop orientation mid v lev l st = index_loop orientation mid v lev (l + 1) ?st'"
      using True by (subst index_loop.simps) simp
    have "2 * nat (lev - l) = 2 + 2 * nat (lev - (l + 1))" using True by simp
    then have "drop_bit (2 * nat (lev - l)) (snd (index_loop orientation mid v lev l st))
        = drop_bit 2 (drop_bit (2 * nat (lev - (l + 1)))
            (snd (index_loop orientation mid v lev (l + 1) ?st')))"
      by (simp only: unf drop_bit_drop_bit add.commute)
    also have "\<dots> = drop_bit 2 (snd ?st')" by (simp only: IH)
    also have "\<dots> = drop_bit 2 (4 * i + of_nat k)" by (simp only: step snd_conv)
    also have "\<dots> = i" using small k by (rule drop_child)
    finally show ?thesis by (simp add: st)
  next
    case False
    with "1.prems" have "l = lev" by simp
    then show ?thesis using False by (subst index_loop.simps) simp
  qed
qed

lemma index_loop_replay:
  assumes "0 \<le> l" and "l \<le> lev" and "lev \<le> 30"
    and "8 * 4 ^ nat l \<le> unat (snd st)" and "unat (snd st) < 16 * 4 ^ nat l"
  shows "triangle_loop mid (snd (index_loop orientation mid v lev l st)) (2 * (lev - l) - 2) (fst st)
         = fst (index_loop orientation mid v lev l st)"
  using assms
proof (induction orientation mid v lev l st rule: index_loop.induct)
  case (1 orientation mid v lev l st)
  show ?case
  proof (cases "l < lev")
    case True
    obtain t i where st: "st = (t, i)" by (cases st)
    let ?st' = "index_step orientation mid v st"
    let ?i' = "snd (index_loop orientation mid v lev (l + 1) ?st')"
    from index_step_replay [of orientation mid v t i] obtain k where
      k: "k < 4" and step: "?st' = (triangle_step mid (int k) t, 4 * i + of_nat k)"
      unfolding st by blast
    have mem: "snd ?st' \<in> {4 * i, 4 * i + 1, 4 * i + 2, 4 * i + 3}"
      unfolding st by (rule index_step_snd)
    have l30: "nat l < 30" using True "1.prems" by simp
    have b: "8 * 4 ^ Suc (nat l) \<le> unat (snd ?st') \<and> unat (snd ?st') < 16 * 4 ^ Suc (nat l)"
      using "1.prems"(4,5) l30 mem unfolding st by (intro step_bounds) simp_all
    have S: "Suc (nat l) = nat (l + 1)" using "1.prems"(1) by simp
    have l1: "0 \<le> l + 1" "l + 1 \<le> lev" using True "1.prems"(1) by simp_all
    have b': "8 * 4 ^ nat (l + 1) \<le> unat (snd ?st')" "unat (snd ?st') < 16 * 4 ^ nat (l + 1)"
      using b unfolding S by simp_all
    have IH: "triangle_loop mid ?i' (2 * (lev - (l + 1)) - 2) (fst ?st')
        = fst (index_loop orientation mid v lev (l + 1) ?st')"
      using True l1 "1.prems"(3) b' by (intro "1.IH")
    have pre: "drop_bit (2 * nat (lev - (l + 1))) ?i' = snd ?st'"
      using l1 "1.prems"(3) b' by (rule index_loop_prefix)
    have unf: "index_loop orientation mid v lev l st = index_loop orientation mid v lev (l + 1) ?st'"
      using True by (subst index_loop.simps) simp
    have pos: "0 \<le> 2 * (lev - l) - 2" using True by simp
    have n: "nat (2 * (lev - l) - 2) = 2 * nat (lev - (l + 1))" using True by simp
    have m: "2 * (lev - l) - 2 - 2 = 2 * (lev - (l + 1)) - 2" by simp
    have "drop_bit (nat (2 * (lev - l) - 2)) ?i' = snd ?st'" by (simp only: n pre)
    then have "drop_bit (nat (2 * (lev - l) - 2)) ?i' = 4 * i + of_nat k"
      by (simp only: step snd_conv)
    then have code: "uint (drop_bit (nat (2 * (lev - l) - 2)) ?i' AND 3) = int k"
      using k by (simp only: low_bits_child)
    have "triangle_loop mid ?i' (2 * (lev - l) - 2) t
        = triangle_loop mid ?i' (2 * (lev - l) - 2 - 2)
            (triangle_step mid (uint (drop_bit (nat (2 * (lev - l) - 2)) ?i' AND 3)) t)"
      using pos by (subst triangle_loop.simps) simp
    also have "\<dots> = triangle_loop mid ?i' (2 * (lev - (l + 1)) - 2) (fst ?st')"
      by (simp only: code m) (simp only: step fst_conv)
    also note IH
    finally show ?thesis by (simp only: unf [unfolded st] st fst_conv)
  next
    case False
    with "1.prems" have "l = lev" by simp
    then show ?thesis using False
      by (subst triangle_loop.simps, subst (1 2) index_loop.simps) simp
  qed
qed

lemma root_of_index:
  assumes "unat r < 8"
  shows "(r + 8) AND 7 = (r :: uint64)"
proof -
  have "unat ((r + 8) AND 7) = unat (r + 8) mod 8" by (rule and7_unat)
  also have "unat (r + 8) = unat r + 8" using assms by (simp add: unat_word_ariths)
  also have "(unat r + 8) mod 8 = unat r" using assms by simp
  finally show ?thesis by (simp add: word_unat_eq_iff)
qed

text \<open>
  For a pixelization of level \<open>L\<close>, \<open>triangle\<close> applied to the index of a point
  returns the very triangle on which the descent of \<open>index\<close> ended: it reads the
  level, the root number and every child number back from the index as \<open>index\<close>
  wrote them. This holds whatever \<open>orientation\<close> and the normalised sums compute.
  Whether that triangle contains the point depends on how these two round, which this
  development leaves open.
\<close>

lemma triangle_index:
  assumes "0 \<le> L" and "L \<le> MAX_LEVEL" and "MAX_LEVEL \<le> 30"
  shows "triangle MAX_LEVEL mid (index orientation mid (HtmPixelization_obj L) v) =
     Inr (fst (index_loop orientation mid v L 0
                 (root_trixel (unat (index_root v)), index_root v + 8)))"
proof -
  define r where "r = index_root v"
  define st where "st = (root_trixel (unat r), r + 8)"
  define i' where "i' = snd (index_loop orientation mid v L 0 st)"
  have L30: "L \<le> 30" using assms by simp
  have b: "8 * 4 ^ nat 0 \<le> unat (snd st)" "unat (snd st) < 16 * 4 ^ nat 0"
    using index_root_plus8 [of v] by (simp_all add: st_def r_def)
  have z: "(0::int) \<le> 0" by simp
  have idx: "index orientation mid (HtmPixelization_obj L) v = i'"
    by (simp add: index_def Let_def i'_def st_def r_def)
  have lev: "level i' = L"
    unfolding i'_def using z assms(1) L30 b by (rule index_loop_level)
  have e: "2 * nat (L - 0) = nat (L * 2)" using assms(1) by simp
  have "drop_bit (2 * nat (L - 0)) i' = snd st"
    unfolding i'_def using z assms(1) L30 b by (rule index_loop_prefix)
  then have "drop_bit (nat (L * 2)) i' = r + 8" by (simp only: e st_def snd_conv)
  then have root: "drop_bit (nat (L * 2)) i' AND 7 = r"
    using index_root_unat [of v] by (simp only: root_of_index r_def)
  have "triangle_loop mid i' (2 * (L - 0) - 2) (fst st) = fst (index_loop orientation mid v L 0 st)"
    unfolding i'_def using z assms(1) L30 b by (rule index_loop_replay)
  then have rep: "triangle_loop mid i' (L * 2 - 2) (root_trixel (unat r))
      = fst (index_loop orientation mid v L 0 st)"
    by (simp add: st_def mult.commute)
  have "triangle MAX_LEVEL mid i' = Inr (fst (index_loop orientation mid v L 0 st))"
    using assms(1,2) by (simp add: triangle_def Let_def lev root rep)
  then show ?thesis by (simp only: idx st_def r_def)
qed

section \<open>One child layout in the three operations\<close>

lemma triangle_step_layout:
  "k < 4 \<Longrightarrow> triangle_step mid (int k) t = spec_child_layout mid t k"
proof -
  assume "k < 4"
  then have "k = 0 \<or> k = 1 \<or> k = 2 \<or> k = 3" by auto
  then show ?thesis
    by (cases t) (auto simp: triangle_step_def spec_child_layout_def Let_def)
qed

lemma triangle_loop_child:
  assumes "drop_bit 2 j = i" and "uint (j AND 3) = k"
    and "even e" and "- 2 \<le> e"
  shows "triangle_loop mid j (e + 2) t = triangle_step mid k (triangle_loop mid i e t)"
  using assms
proof (induction mid i e t rule: triangle_loop.induct)
  case (1 mid i e t)
  note dj = "1.prems"(1) and cj = "1.prems"(2)
  show ?case
  proof (cases "0 \<le> e")
    case True
    let ?c = "uint (drop_bit (nat e) i AND 3)"
    have n: "nat (e + 2) = nat e + 2" using True by simp
    have "drop_bit (nat (e + 2)) j = drop_bit (nat e) (drop_bit 2 j)"
      unfolding n by (simp add: drop_bit_drop_bit add.commute)
    then have "drop_bit (nat (e + 2)) j = drop_bit (nat e) i"
      by (simp only: dj)
    then have "triangle_loop mid j (e + 2) t =
        triangle_loop mid j e (triangle_step mid ?c t)"
      using True by (subst triangle_loop.simps) simp
    also have "\<dots> = triangle_loop mid j (e - 2 + 2) (triangle_step mid ?c t)" by simp
    also have "\<dots> = triangle_step mid k (triangle_loop mid i (e - 2) (triangle_step mid ?c t))"
      using True dj cj "1.prems"(3,4) by (intro "1.IH") simp_all
    also have "triangle_loop mid i (e - 2) (triangle_step mid ?c t) = triangle_loop mid i e t"
      using True by (subst (2) triangle_loop.simps) simp
    finally show ?thesis .
  next
    case False
    with "1.prems"(3,4) have e: "e = - 2" by presburger
    have "triangle_loop mid i (- 2) t = t" by (subst triangle_loop.simps) simp
    moreover have "triangle_loop mid j (- 2) (triangle_step mid k t) = triangle_step mid k t"
      by (subst triangle_loop.simps) simp
    moreover have "triangle_loop mid j 0 t = triangle_loop mid j (- 2) (triangle_step mid k t)"
      by (subst triangle_loop.simps) (simp add: cj)
    ultimately show ?thesis by (simp add: e)
  qed
qed

lemma triangle_child:
  assumes lv: "level i = l" and l0: "0 \<le> l" and lM: "l < MAX_LEVEL" and M: "MAX_LEVEL \<le> 30"
    and k: "k < 4" and t: "triangle MAX_LEVEL mid i = Inr t"
  shows "triangle MAX_LEVEL mid (4 * i + of_nat k) = Inr (triangle_step mid (int k) t)"
proof -
  let ?j = "4 * i + of_nat k"
  from lv l0 have "level i = int (nat l)" by simp
  from level_nonneg_bounds [OF this]
  have lo: "8 * 4 ^ nat l \<le> unat i" and hi: "unat i < 16 * 4 ^ nat l" by simp_all
  have l30: "nat l < 30" using l0 lM M by simp
  from k have "k = 0 \<or> k = 1 \<or> k = 2 \<or> k = 3" by auto
  then have "?j \<in> {4 * i, 4 * i + 1, 4 * i + 2, 4 * i + 3}" by auto
  from step_bounds [OF lo hi l30 this]
  have "level ?j = int (Suc (nat l))" by (intro level_of_bounds) simp_all
  then have lj: "level ?j = l + 1" using l0 by simp
  have "(4::nat) ^ nat l \<le> 4 ^ 29" using l30 by (intro power_increasing) simp_all
  with hi have small: "4 * unat i + 3 < 2 ^ 64" by simp
  have dj: "drop_bit 2 ?j = i" using small k by (rule drop_child)
  have cj: "uint (?j AND 3) = int k" using k by (rule low_bits_child)
  have n: "nat ((l + 1) * 2) = nat (l * 2) + 2" using l0 by simp
  have "drop_bit (nat ((l + 1) * 2)) ?j = drop_bit (nat (l * 2)) (drop_bit 2 ?j)"
    unfolding n by (simp add: drop_bit_drop_bit add.commute)
  then have root: "drop_bit (nat ((l + 1) * 2)) ?j = drop_bit (nat (l * 2)) i"
    by (simp only: dj)
  have ev: "even (l * 2 - 2)" "- 2 \<le> l * 2 - 2" using l0 by simp_all
  have e: "(l + 1) * 2 - 2 = l * 2 - 2 + 2" by simp
  have loop: "triangle_loop mid ?j ((l + 1) * 2 - 2) t0 =
      triangle_step mid (int k) (triangle_loop mid i (l * 2 - 2) t0)" for t0
    unfolding e using dj cj ev by (rule triangle_loop_child)
  have ti: "t = triangle_loop mid i (l * 2 - 2) (root_trixel (unat (drop_bit (nat (l * 2)) i AND 7)))"
    using t l0 lM by (simp add: triangle_def Let_def lv)
  have "triangle MAX_LEVEL mid ?j =
      Inr (triangle_loop mid ?j ((l + 1) * 2 - 2)
             (root_trixel (unat (drop_bit (nat ((l + 1) * 2)) ?j AND 7))))"
    using l0 lM unfolding triangle_def Let_def lj by simp
  also have "\<dots> = Inr (triangle_step mid (int k) t)"
    by (simp only: root loop ti)
  finally show ?thesis .
qed

lemma index_loop_deeper:
  "l \<le> lev \<Longrightarrow>
   index_loop orientation mid v (lev + 1) l st =
     index_step orientation mid v (index_loop orientation mid v lev l st)"
proof (induction orientation mid v lev l st rule: index_loop.induct)
  case (1 orientation mid v lev l st)
  show ?case
  proof (cases "l < lev")
    case True
    have "index_loop orientation mid v (lev + 1) l st =
        index_loop orientation mid v (lev + 1) (l + 1) (index_step orientation mid v st)"
      using True by (subst index_loop.simps) simp
    also have "\<dots> = index_step orientation mid v
        (index_loop orientation mid v lev (l + 1) (index_step orientation mid v st))"
      using True by (intro "1.IH") simp_all
    also have "index_loop orientation mid v lev (l + 1) (index_step orientation mid v st) =
        index_loop orientation mid v lev l st"
      using True by (subst (2) index_loop.simps) simp
    finally show ?thesis .
  next
    case False
    with "1.prems" have eq: "l = lev" by simp
    have "index_loop orientation mid v (lev + 1) lev st =
        index_loop orientation mid v (lev + 1) (lev + 1) (index_step orientation mid v st)"
      by (subst index_loop.simps) simp
    also have "\<dots> = index_step orientation mid v st" by (subst index_loop.simps) simp
    finally have a: "index_loop orientation mid v (lev + 1) lev st =
        index_step orientation mid v st" .
    have b: "index_loop orientation mid v lev lev st = st" by (subst index_loop.simps) simp
    show ?thesis by (simp only: eq a b)
  qed
qed

lemma index_step_layout:
  "\<exists>k \<in> {0, 1, 2, 3}.
     index_step orientation mid v (t, i) = (spec_child_layout mid t k, 4 * i + of_nat k)
     \<and> k = (case t of (v0, v1, v2) \<Rightarrow>
              if orientation v (mid v0 v1) (mid v2 v0) \<ge> 0 then 0
              else if orientation v (mid v1 v2) (mid v0 v1) \<ge> 0 then 1
              else if orientation v (mid v2 v0) (mid v1 v2) \<ge> 0 then 2 else 3)"
  by (cases t)
    (simp add: index_step_def spec_child_layout_def Let_def push_bit_eq_mult mult.commute)

lemma index_deeper:
  assumes L0: "0 \<le> L" and LM: "L < MAX_LEVEL" and M: "MAX_LEVEL \<le> 30"
  shows "\<exists>t. triangle MAX_LEVEL mid (index orientation mid (HtmPixelization_obj L) v) = Inr t
     \<and> (\<exists>k \<in> {0, 1, 2, 3}.
           index orientation mid (HtmPixelization_obj (L + 1)) v
             = 4 * index orientation mid (HtmPixelization_obj L) v + of_nat k
           \<and> triangle MAX_LEVEL mid (index orientation mid (HtmPixelization_obj (L + 1)) v)
             = Inr (spec_child_layout mid t k)
           \<and> k = (case t of (v0, v1, v2) \<Rightarrow>
                    if orientation v (mid v0 v1) (mid v2 v0) \<ge> 0 then 0
                    else if orientation v (mid v1 v2) (mid v0 v1) \<ge> 0 then 1
                    else if orientation v (mid v2 v0) (mid v1 v2) \<ge> 0 then 2 else 3))"
proof -
  define st0 where "st0 = (root_trixel (unat (index_root v)), index_root v + 8)"
  define st where "st = index_loop orientation mid v L 0 st0"
  obtain t i where sti: "st = (t, i)" by (cases st)
  have iL: "index orientation mid (HtmPixelization_obj L) v = i"
    by (simp add: index_def Let_def st0_def [symmetric] st_def [symmetric] sti)
  have "triangle MAX_LEVEL mid (index orientation mid (HtmPixelization_obj L) v) = Inr (fst st)"
    unfolding st_def st0_def using L0 LM M by (intro triangle_index) simp_all
  then have tL: "triangle MAX_LEVEL mid i = Inr t" by (simp only: iL sti fst_conv)
  have deeper: "index_loop orientation mid v (L + 1) 0 st0 = index_step orientation mid v (t, i)"
    using L0 by (simp only: index_loop_deeper st_def [symmetric] sti)
  from index_step_layout [of orientation mid v t i] obtain k where
    k: "k \<in> {0, 1, 2, 3}"
    and step: "index_step orientation mid v (t, i) = (spec_child_layout mid t k, 4 * i + of_nat k)"
    and choice: "k = (case t of (v0, v1, v2) \<Rightarrow>
                    if orientation v (mid v0 v1) (mid v2 v0) \<ge> 0 then 0
                    else if orientation v (mid v1 v2) (mid v0 v1) \<ge> 0 then 1
                    else if orientation v (mid v2 v0) (mid v1 v2) \<ge> 0 then 2 else 3)"
    by blast
  have i1: "index orientation mid (HtmPixelization_obj (L + 1)) v = 4 * i + of_nat k"
    by (simp add: index_def Let_def st0_def [symmetric] deeper step)
  have "triangle MAX_LEVEL mid (index orientation mid (HtmPixelization_obj (L + 1)) v)
      = Inr (fst (index_loop orientation mid v (L + 1) 0 st0))"
    unfolding st0_def using L0 LM M by (intro triangle_index) simp_all
  then have t1: "triangle MAX_LEVEL mid (index orientation mid (HtmPixelization_obj (L + 1)) v)
      = Inr (spec_child_layout mid t k)"
    by (simp only: deeper step fst_conv)
  from tL k i1 t1 choice show ?thesis unfolding iL by blast
qed

text \<open>
  Claim C6. \<open>subdivide\<close>, the replay of \<open>triangle\<close> and the descent of \<open>index\<close> use
  one child layout, the table of the specification, with the same two-bit child codes.
  For the loop bodies: \<open>subdivide\<close> hands child \<open>k\<close> of the table on with index
  \<open>4 * index + k\<close> (and the next level); the \<open>switch\<close> of \<open>triangle\<close> takes child \<open>k\<close> of
  the table for the child number \<open>k\<close>, which is what the two low bits of \<open>4 * index + k\<close>
  hold; one round of \<open>index\<close> moves to child \<open>k\<close> of the table and appends the bits of
  \<open>k\<close>, where \<open>k\<close> is the first of its three orientation tests that is not negative,
  or 3. For the operations themselves: when \<open>i\<close> is a valid index of level \<open>l\<close> below
  \<open>MAX_LEVEL\<close>, \<open>triangle (4 * i + k)\<close> is child \<open>k\<close> of the table for \<open>triangle i\<close>, so
  every node that \<open>subdivide\<close> hands on from \<open>triangle i\<close> carries the triangle that
  \<open>triangle\<close> returns for its index, at the level that \<open>level\<close> returns for it; and the
  index of a point at level \<open>L + 1\<close> is \<open>4 * j + k\<close> for its index \<open>j\<close> at level \<open>L\<close>,
  with \<open>triangle\<close> of the deeper index being child \<open>k\<close> of the table for \<open>triangle j\<close>.
  \<open>MAX_LEVEL\<close> is declared in the header; the 64 bits of an index hold levels up to 30.
\<close>

theorem child_layout_shared:
  "map (\<lambda>node. (fst node, fst (snd node))) (subdivide mid t i l) =
     map (\<lambda>k. (spec_child_layout mid t k, 4 * i + of_nat k)) [0, 1, 2, 3]
   \<and> map (\<lambda>node. snd (snd node)) (subdivide mid t i l) = [l + 1, l + 1, l + 1, l + 1]
   \<and> (\<forall>k \<in> {0, 1, 2, 3}.
         triangle_step mid (int k) t = spec_child_layout mid t k
         \<and> triangle_step mid (uint ((4 * i + of_nat k) AND 3)) t = spec_child_layout mid t k)
   \<and> (\<exists>k \<in> {0, 1, 2, 3}.
         index_step orientation mid v (t, i) = (spec_child_layout mid t k, 4 * i + of_nat k)
         \<and> k = (case t of (v0, v1, v2) \<Rightarrow>
                  if orientation v (mid v0 v1) (mid v2 v0) \<ge> 0 then 0
                  else if orientation v (mid v1 v2) (mid v0 v1) \<ge> 0 then 1
                  else if orientation v (mid v2 v0) (mid v1 v2) \<ge> 0 then 2 else 3))
   \<and> (level i = l \<and> 0 \<le> l \<and> l < MAX_LEVEL \<and> MAX_LEVEL \<le> 30 \<longrightarrow>
        (\<exists>ti. triangle MAX_LEVEL mid i = Inr ti
           \<and> (\<forall>k \<in> {0, 1, 2, 3}.
                 triangle MAX_LEVEL mid (4 * i + of_nat k) = Inr (spec_child_layout mid ti k))
           \<and> (\<forall>node \<in> set (subdivide mid ti i l).
                 triangle MAX_LEVEL mid (fst (snd node)) = Inr (fst node)
                 \<and> level (fst (snd node)) = snd (snd node))))
   \<and> (0 \<le> L \<and> L < MAX_LEVEL \<and> MAX_LEVEL \<le> 30 \<longrightarrow>
        (\<exists>tj. triangle MAX_LEVEL mid (index orientation mid (HtmPixelization_obj L) v) = Inr tj
           \<and> (\<exists>k \<in> {0, 1, 2, 3}.
                 index orientation mid (HtmPixelization_obj (L + 1)) v
                   = 4 * index orientation mid (HtmPixelization_obj L) v + of_nat k
                 \<and> triangle MAX_LEVEL mid (index orientation mid (HtmPixelization_obj (L + 1)) v)
                   = Inr (spec_child_layout mid tj k)
                 \<and> k = (case tj of (v0, v1, v2) \<Rightarrow>
                          if orientation v (mid v0 v1) (mid v2 v0) \<ge> 0 then 0
                          else if orientation v (mid v1 v2) (mid v0 v1) \<ge> 0 then 1
                          else if orientation v (mid v2 v0) (mid v1 v2) \<ge> 0 then 2 else 3))))"
proof -
  have sub: "map (\<lambda>node. (fst node, fst (snd node))) (subdivide mid t i l) =
     map (\<lambda>k. (spec_child_layout mid t k, 4 * i + of_nat k)) [0, 1, 2, 3]" for t
    by (cases t) (simp add: subdivide_def spec_child_layout_def Let_def mult.commute add.assoc)
  have lev: "map (\<lambda>node. snd (snd node)) (subdivide mid t i l) = [l + 1, l + 1, l + 1, l + 1]"
    for t by (cases t) (simp add: subdivide_def Let_def)
  have four: "k < 4" if "k \<in> {0, 1, 2, 3}" for k :: nat using that by auto
  have tri: "\<forall>k \<in> {0, 1, 2, 3}.
         triangle_step mid (int k) t = spec_child_layout mid t k
         \<and> triangle_step mid (uint ((4 * i + of_nat k) AND 3)) t = spec_child_layout mid t k"
  proof
    fix k :: nat assume "k \<in> {0, 1, 2, 3}"
    then have k: "k < 4" by (rule four)
    then show "triangle_step mid (int k) t = spec_child_layout mid t k
         \<and> triangle_step mid (uint ((4 * i + of_nat k) AND 3)) t = spec_child_layout mid t k"
      by (simp only: low_bits_child triangle_step_layout)
  qed
  note idx = index_step_layout [of orientation mid v t i]
  have ops: "\<exists>ti. triangle MAX_LEVEL mid i = Inr ti
           \<and> (\<forall>k \<in> {0, 1, 2, 3}.
                 triangle MAX_LEVEL mid (4 * i + of_nat k) = Inr (spec_child_layout mid ti k))
           \<and> (\<forall>node \<in> set (subdivide mid ti i l).
                 triangle MAX_LEVEL mid (fst (snd node)) = Inr (fst node)
                 \<and> level (fst (snd node)) = snd (snd node))"
    if h: "level i = l \<and> 0 \<le> l \<and> l < MAX_LEVEL \<and> MAX_LEVEL \<le> 30"
  proof -
    from h have lv: "level i = l" and l0: "0 \<le> l" and lM: "l < MAX_LEVEL"
      and M: "MAX_LEVEL \<le> 30" by simp_all
    from lv l0 lM obtain ti where ti: "triangle MAX_LEVEL mid i = Inr ti"
      by (simp add: triangle_def Let_def)
    have ch: "triangle MAX_LEVEL mid (4 * i + of_nat k) = Inr (spec_child_layout mid ti k)"
      if "k < 4" for k
      using triangle_child [OF lv l0 lM M that ti] by (simp only: triangle_step_layout [OF that])
    from lv l0 have "level i = int (nat l)" by simp
    from level_nonneg_bounds [OF this]
    have lo: "8 * 4 ^ nat l \<le> unat i" and hi: "unat i < 16 * 4 ^ nat l" by simp_all
    have l30: "nat l < 30" using l0 lM M by simp
    have lc: "level (4 * i + of_nat k) = l + 1" if "k < 4" for k
    proof -
      from that have "k = 0 \<or> k = 1 \<or> k = 2 \<or> k = 3" by auto
      then have "4 * i + of_nat k \<in> {4 * i, 4 * i + 1, 4 * i + 2, 4 * i + 3}" by auto
      from step_bounds [OF lo hi l30 this]
      have "level (4 * i + of_nat k) = int (Suc (nat l))" by (intro level_of_bounds) simp_all
      then show ?thesis using l0 by simp
    qed
    have nodes: "triangle MAX_LEVEL mid (fst (snd node)) = Inr (fst node)
        \<and> level (fst (snd node)) = snd (snd node)" if "node \<in> set (subdivide mid ti i l)" for node
    proof -
      from that have a: "(fst node, fst (snd node)) \<in>
          set (map (\<lambda>node. (fst node, fst (snd node))) (subdivide mid ti i l))"
        and b: "snd (snd node) \<in> set (map (\<lambda>node. snd (snd node)) (subdivide mid ti i l))"
        by simp_all
      from b have b': "snd (snd node) = l + 1" unfolding lev by simp
      from a have "(fst node, fst (snd node)) \<in>
          (\<lambda>k. (spec_child_layout mid ti k, 4 * i + of_nat k)) ` set [0, 1, 2, 3 :: nat]"
        unfolding sub by (simp only: set_map)
      then obtain k :: nat where kin: "k \<in> set [0, 1, 2, 3 :: nat]"
        and eq: "(fst node, fst (snd node)) = (spec_child_layout mid ti k, 4 * i + of_nat k)"
        by (rule imageE)
      from kin have k: "k < 4" by auto
      from eq have f: "fst node = spec_child_layout mid ti k"
        and s: "fst (snd node) = 4 * i + of_nat k" by simp_all
      show ?thesis by (simp only: f s b' ch [OF k] lc [OF k])
    qed
    from ti ch nodes four show ?thesis by blast
  qed
  have deep: "\<exists>tj. triangle MAX_LEVEL mid (index orientation mid (HtmPixelization_obj L) v) = Inr tj
           \<and> (\<exists>k \<in> {0, 1, 2, 3}.
                 index orientation mid (HtmPixelization_obj (L + 1)) v
                   = 4 * index orientation mid (HtmPixelization_obj L) v + of_nat k
                 \<and> triangle MAX_LEVEL mid (index orientation mid (HtmPixelization_obj (L + 1)) v)
                   = Inr (spec_child_layout mid tj k)
                 \<and> k = (case tj of (v0, v1, v2) \<Rightarrow>
                          if orientation v (mid v0 v1) (mid v2 v0) \<ge> 0 then 0
                          else if orientation v (mid v1 v2) (mid v0 v1) \<ge> 0 then 1
                          else if orientation v (mid v2 v0) (mid v1 v2) \<ge> 0 then 2 else 3))"
    if h: "0 \<le> L \<and> L < MAX_LEVEL \<and> MAX_LEVEL \<le> 30"
    using h by (intro index_deeper) simp_all
  show ?thesis
    by (intro conjI impI) (fact sub lev tri idx, fact sub lev tri idx, fact sub lev tri idx,
        fact sub lev tri idx, erule ops, erule deep)
qed

lemma level_55: "level 55 = 1"
  by (simp add: level_alt Let_def msb_index_unique [of 5])

theorem child_layout_shared_witness:
  "triangle_step (\<lambda>a b. fromNormalized (vx a + vx b) (vy a + vy b) (vz a + vz b)) 2 (root_trixel 0)
     = spec_child_layout (\<lambda>a b. fromNormalized (vx a + vx b) (vy a + vy b) (vz a + vz b))
         (root_trixel 0) 2
   \<and> level 55 = 1 \<and> (0::int) \<le> 1 \<and> (1::int) < 24 \<and> (24::int) \<le> 30
   \<and> (\<exists>ti. triangle 24 (\<lambda>a b. fromNormalized (vx a + vx b) (vy a + vy b) (vz a + vz b)) 55 = Inr ti
         \<and> triangle 24 (\<lambda>a b. fromNormalized (vx a + vx b) (vy a + vy b) (vz a + vz b)) 222
             = Inr (spec_child_layout
                     (\<lambda>a b. fromNormalized (vx a + vx b) (vy a + vy b) (vz a + vz b)) ti 2))
   \<and> index (\<lambda>a b c. - 1) (\<lambda>a b. fromNormalized (vx a + vx b) (vy a + vy b) (vz a + vz b))
        (HtmPixelization_obj 2) (fromNormalized 0 0 1)
      = 4 * index (\<lambda>a b c. - 1) (\<lambda>a b. fromNormalized (vx a + vx b) (vy a + vy b) (vz a + vz b))
              (HtmPixelization_obj 1) (fromNormalized 0 0 1) + 3"
proof -
  define m :: midpoint where
    "m = (\<lambda>a b. fromNormalized (vx a + vx b) (vy a + vy b) (vz a + vz b))"
  define ori :: orient where "ori = (\<lambda>a b c. - 1)"
  define p where "p = fromNormalized 0 0 1"
  note th = child_layout_shared [of m "root_trixel 0" 55 1 ori p 24 1]
  note steps = th [THEN conjunct2, THEN conjunct2, THEN conjunct1]
  note tri = th [THEN conjunct2, THEN conjunct2, THEN conjunct2, THEN conjunct2, THEN conjunct1]
  note idx = th [THEN conjunct2, THEN conjunct2, THEN conjunct2, THEN conjunct2, THEN conjunct2]
  have two: "(2::nat) \<in> {0, 1, 2, 3}" by simp
  from bspec [OF steps two]
  have a: "triangle_step m 2 (root_trixel 0) = spec_child_layout m (root_trixel 0) 2" by simp
  have h1: "level 55 = 1 \<and> (0::int) \<le> 1 \<and> (1::int) < 24 \<and> (24::int) \<le> 30"
    by (simp add: level_55)
  from tri [THEN mp, OF h1] obtain ti where ti: "triangle 24 m 55 = Inr ti"
    and ch: "\<forall>k \<in> {0, 1, 2, 3}. triangle 24 m (4 * 55 + of_nat k) = Inr (spec_child_layout m ti k)"
    by blast
  from bspec [OF ch two] have b: "triangle 24 m 222 = Inr (spec_child_layout m ti 2)" by simp
  have h2: "(0::int) \<le> 1 \<and> (1::int) < 24 \<and> (24::int) \<le> 30" by simp
  from idx [THEN mp, OF h2] obtain tj k where
    i1: "index ori m (HtmPixelization_obj (1 + 1)) p
          = 4 * index ori m (HtmPixelization_obj 1) p + of_nat k"
    and k: "k = (case tj of (v0, v1, v2) \<Rightarrow>
              if ori p (m v0 v1) (m v2 v0) \<ge> 0 then 0
              else if ori p (m v1 v2) (m v0 v1) \<ge> 0 then 1
              else if ori p (m v2 v0) (m v1 v2) \<ge> 0 then 2 else 3)"
    by blast
  from k have "k = 3" by (simp add: ori_def split: prod.splits)
  with i1 have c: "index ori m (HtmPixelization_obj 2) p
      = 4 * index ori m (HtmPixelization_obj 1) p + 3" by simp
  from a ti b c h1 show ?thesis unfolding m_def ori_def p_def by blast
qed

end
